theory Spec2Isabelle
  imports Main "HOL-Library.Word" "HOL-Library.Stream" "HOL-Library.Monad_Syntax"
begin

unbundle bit_operations_syntax

section \<open>The DNS message codec of \<^verbatim>\<open>src/server/c/dns/codec.c\<close>\<close>

text \<open>
  The C types are fixed as on an LP64 platform: \<^verbatim>\<open>uint8_t\<close>, \<^verbatim>\<open>uint16_t\<close> and
  \<^verbatim>\<open>uint32_t\<close> are words of that width, \<^verbatim>\<open>int\<close> and \<^verbatim>\<open>unsigned int\<close> have 32 bits,
  \<^verbatim>\<open>size_t\<close> has 64 bits. Unsigned arithmetic wraps around, as C defines it.
\<close>

type_synonym uint8_t = "8 word"
type_synonym uint16_t = "16 word"
type_synonym uint32_t = "32 word"
type_synonym c_int = "32 word"
type_synonym c_uint = "32 word"
type_synonym size_t = "64 word"

subsection \<open>Data model\<close>

text \<open>
  Modelled from the spec: the header \<^verbatim>\<open>codec.h\<close> with the declarations of
  \<^verbatim>\<open>dnsmsg_label_t\<close>, \<^verbatim>\<open>dnsmsg_header_t\<close>, \<^verbatim>\<open>dnsmsg_question_t\<close>, \<^verbatim>\<open>dnsmsg_rr_t\<close> and
  \<^verbatim>\<open>dnsmsg_t\<close> is not among the sources. The fields are the ones \<^verbatim>\<open>codec.c\<close> uses,
  with the widths of the spec's data model (label length 8 bits; identifier, status
  word, counts, type, class and data size 16 bits; ttl 32 bits), which are also the
  widths of the \<^verbatim>\<open>pop_int\<close> and \<^verbatim>\<open>append_int\<close> calls that read and write them.

  A C array is a pointer and a separate count. The pointer is modelled by the list
  of the elements stored behind it, the count stays the field it is in C, so that a
  structure whose counts disagree with its arrays can be written down. The fields
  \<^verbatim>\<open>labels\<close>, \<^verbatim>\<open>labels_size\<close>, \<^verbatim>\<open>type\<close> and \<^verbatim>\<open>class\<close> exist in both the question and
  the resource record; they carry the prefix \<open>q_\<close> or \<open>rr_\<close> here, and the header's
  \<^verbatim>\<open>id\<close> is \<open>id_field\<close>.
\<close>

record dnsmsg_label_t =
  name_size :: uint8_t
  name :: "uint8_t list"

record dnsmsg_header_t =
  id_field :: uint16_t
  status_flags :: uint16_t
  query_count :: uint16_t
  answer_count :: uint16_t
  authority_count :: uint16_t
  additional_count :: uint16_t

record dnsmsg_question_t =
  q_labels :: "dnsmsg_label_t list"
  q_labels_size :: uint16_t
  q_type :: uint16_t
  q_class :: uint16_t

record dnsmsg_rr_t =
  rr_labels :: "dnsmsg_label_t list"
  rr_labels_size :: uint16_t
  rr_type :: uint16_t
  rr_class :: uint16_t
  rr_ttl :: uint32_t
  rr_data_size :: uint16_t
  rr_data :: "uint8_t list"

record dnsmsg_t =
  header :: dnsmsg_header_t
  questions :: "dnsmsg_question_t list"
  answers :: "dnsmsg_rr_t list"
  authorities :: "dnsmsg_rr_t list"
  additionals :: "dnsmsg_rr_t list"

subsection \<open>Header status flags\<close>

text \<open>
  \<^verbatim>\<open>encode_status_flags\<close> computes on \<^verbatim>\<open>int\<close> and returns \<^verbatim>\<open>uint16_t\<close>: the conversion
  keeps the low 16 bits. \<^verbatim>\<open>decode_status_flags\<close> stores its seven results through
  pointers; the model returns them as a tuple in the order of the parameters. In
  both, and in \<^verbatim>\<open>is_truncated\<close>, the status word is promoted to \<^verbatim>\<open>int\<close> before it is
  shifted and masked.
\<close>

definition encode_status_flags ::
  "c_int \<Rightarrow> c_int \<Rightarrow> c_int \<Rightarrow> c_int \<Rightarrow> c_int \<Rightarrow> c_int \<Rightarrow> c_int \<Rightarrow> uint16_t" where
  "encode_status_flags qr opcode aa tc rd ra rcode =
     (let z = (0 :: c_int)
      in ucast (push_bit 15 qr OR push_bit 11 opcode OR push_bit 10 aa OR push_bit 9 tc
                OR push_bit 8 rd OR push_bit 7 ra OR push_bit 4 z OR rcode))"

definition decode_status_flags ::
  "uint16_t \<Rightarrow> c_int \<times> c_int \<times> c_int \<times> c_int \<times> c_int \<times> c_int \<times> c_int" where
  "decode_status_flags sf =
     (ucast (drop_bit 15 sf) AND 1,
      ucast (drop_bit 11 sf) AND 15,
      ucast (drop_bit 10 sf) AND 1,
      ucast (drop_bit 9 sf) AND 1,
      ucast (drop_bit 8 sf) AND 1,
      ucast (drop_bit 7 sf) AND 1,
      ucast sf AND 15)"

definition is_truncated :: "dnsmsg_t \<Rightarrow> c_int" where
  "is_truncated message = ucast (drop_bit 9 (status_flags (header message))) AND 1"

subsection \<open>Reading: the cursor\<close>

text \<open>
  The decoder walks the caller's buffer with a pointer \<^verbatim>\<open>unsigned char** buffer\<close> and a
  signed counter \<^verbatim>\<open>ssize_t* buffer_size\<close>. The pointer is modelled by the stream of the
  octets stored from its address on (the caller's buffer, followed by whatever memory
  lies behind it), so that dereferencing and advancing it are \<open>shd\<close> and \<open>stl\<close>. The
  counter is an integer, and the model is exact as long as that integer is a value
  of \<^verbatim>\<open>ssize_t\<close>, from \<open>- (2 ^ 63)\<close> to \<open>2 ^ 63 - 1\<close>: a decrement that would leave this
  range overflows in C and has no counterpart here. The counter only ever
  decreases, by one per read, and a decoding that starts at a non-negative size ends
  above \<open>- (2 ^ 63)\<close> (lemma \<open>interpret_message_no_overflow\<close> below), so on every
  buffer the counter stays in the range and the integer is the value the C variable
  holds. The properties of the single reads are stated for counters in the range.
\<close>

record cursor =
  buffer :: "uint8_t stream"
  buffer_size :: int

definition pop_int8 :: "cursor \<Rightarrow> uint8_t \<times> cursor" where
  "pop_int8 c =
     (let c1 = c\<lparr>buffer_size := buffer_size c - 1\<rparr>
      in if buffer_size c1 \<ge> 0
         then (shd (buffer c1), c1\<lparr>buffer := stl (buffer c1)\<rparr>)
         else (0, c1))"

text \<open>
  C leaves the order of the two calls in \<^verbatim>\<open>pop_int8(..) << 8 | pop_int8(..)\<close>
  unspecified; the model takes the left operand first, as the compilers in use do and
  as the big-endian wire format needs. The operands are promoted to \<^verbatim>\<open>int\<close>, and the
  result is converted to the return type.
\<close>

definition pop_int16 :: "cursor \<Rightarrow> uint16_t \<times> cursor" where
  "pop_int16 c =
     (let (hi, c1) = pop_int8 c;
          (lo, c2) = pop_int8 c1
      in (ucast (push_bit 8 (ucast hi :: c_int) OR (ucast lo :: c_int)), c2))"

definition pop_int32 :: "cursor \<Rightarrow> uint32_t \<times> cursor" where
  "pop_int32 c =
     (let (hi, c1) = pop_int16 c;
          (lo, c2) = pop_int16 c1
      in (ucast (push_bit 16 (ucast hi :: c_int) OR (ucast lo :: c_int)), c2))"

text \<open>
  The loops \<^verbatim>\<open>for(i = 0; i < n; i++) a[i] = pop_int8(buffer, buffer_size)\<close> that fill
  a label's name and a record's data.
\<close>

primrec pop_octets :: "nat \<Rightarrow> cursor \<Rightarrow> uint8_t list \<times> cursor" where
  "pop_octets 0 c = ([], c)"
| "pop_octets (Suc n) c =
     (let (v, c1) = pop_int8 c;
          (vs, c2) = pop_octets n c1
      in (v # vs, c2))"

subsection \<open>Reading: labels, resource records, the message\<close>

text \<open>
  The \<^verbatim>\<open>while\<close> loop of \<^verbatim>\<open>interpret_labels\<close>, with its variables \<^verbatim>\<open>labels\<close> and
  \<^verbatim>\<open>amount\<close> as arguments. The first label is stored in a fresh one-element array,
  every later one in the array grown by one element. The loop goes on only after a
  non-zero length octet, which is one the counter still covered, so the counter
  bounds the number of rounds. \<^verbatim>\<open>amount\<close> is an \<^verbatim>\<open>unsigned int\<close>; it stays below
  \<open>2 ^ 32\<close> unless one name has that many labels, for which the buffer must be
  larger than 8 GiB.
\<close>

function interpret_labels_loop ::
  "cursor \<Rightarrow> dnsmsg_label_t list \<Rightarrow> c_uint \<Rightarrow> dnsmsg_label_t list \<times> c_uint \<times> cursor" where
  "interpret_labels_loop c labels amount =
     (let (next_size, c1) = pop_int8 c
      in if next_size > 0
         then (let (octets, c2) = pop_octets (unat next_size) c1;
                   label = \<lparr>name_size = next_size, name = octets\<rparr>;
                   labels' = (if amount = 0 then [label] else labels @ [label])
               in interpret_labels_loop c2 labels' (amount + 1))
         else (labels, amount, c1))"
  by pat_completeness auto
termination
proof (relation "measure (\<lambda>(c, labels, amount). nat (buffer_size c))")
  show "wf (measure (\<lambda>(c, labels, amount). nat (buffer_size c)))"
    by simp
next
  fix c :: cursor and labels :: "dnsmsg_label_t list" and amount :: c_uint
    and x :: "uint8_t \<times> cursor" and next_size c1 and xa :: "uint8_t list \<times> cursor"
    and octets c2 label labels'
  assume x: "x = pop_int8 c" "(next_size, c1) = x" and pos: "0 < next_size"
    and xa: "xa = pop_octets (unat next_size) c1" "(octets, c2) = xa"
  have octets_size: "buffer_size (snd (pop_octets n d)) = buffer_size d - int n" for n d
    by (induction n arbitrary: d) (simp_all add: split_beta Let_def pop_int8_def)
  from x have c1: "c1 = snd (pop_int8 c)" and nx: "next_size = fst (pop_int8 c)"
    by (metis snd_conv, metis fst_conv)
  from xa have c2: "c2 = snd (pop_octets (unat next_size) c1)"
    by (metis snd_conv)
  from pos nx have "0 < buffer_size c"
    by (auto simp: pop_int8_def Let_def split: if_splits)
  moreover have "buffer_size c2 = buffer_size c - 1 - int (unat next_size)"
    by (simp add: c1 c2 octets_size pop_int8_def Let_def)
  ultimately have "nat (buffer_size c2) < nat (buffer_size c)"
    by linarith
  then show "((c2, labels', amount + 1), c, labels, amount)
      \<in> measure (\<lambda>(c, labels, amount). nat (buffer_size c))"
    by simp
qed

declare interpret_labels_loop.simps [simp del]

text \<open>
  \<^verbatim>\<open>interpret_labels\<close> returns the array and stores the number of labels through the
  pointer \<^verbatim>\<open>uint16_t* labels_size\<close>: the assignment keeps the low 16 bits of \<^verbatim>\<open>amount\<close>.
  For a name without labels the C function returns the pointer uninitialised, with
  the count 0; the model returns the empty list.
\<close>

definition interpret_labels :: "cursor \<Rightarrow> dnsmsg_label_t list \<times> uint16_t \<times> cursor" where
  "interpret_labels c =
     (let (labels, amount, c1) = interpret_labels_loop c [] 0
      in (labels, ucast amount, c1))"

text \<open>One round of the loop of \<^verbatim>\<open>interpret_rr\<close>, and the loop over \<^verbatim>\<open>amount\<close> records.\<close>

definition interpret_rr_entry :: "cursor \<Rightarrow> dnsmsg_rr_t \<times> cursor" where
  "interpret_rr_entry c =
     (let (labels, labels_size, c1) = interpret_labels c;
          (type, c2) = pop_int16 c1;
          (cls, c3) = pop_int16 c2;
          (ttl, c4) = pop_int32 c3;
          (data_size, c5) = pop_int16 c4;
          (data, c6) = pop_octets (unat data_size) c5
      in (\<lparr>rr_labels = labels, rr_labels_size = labels_size, rr_type = type,
           rr_class = cls, rr_ttl = ttl, rr_data_size = data_size, rr_data = data\<rparr>, c6))"

primrec interpret_rr_loop :: "nat \<Rightarrow> cursor \<Rightarrow> dnsmsg_rr_t list \<times> cursor" where
  "interpret_rr_loop 0 c = ([], c)"
| "interpret_rr_loop (Suc n) c =
     (let (r, c1) = interpret_rr_entry c;
          (rs, c2) = interpret_rr_loop n c1
      in (r # rs, c2))"

definition interpret_rr :: "uint16_t \<Rightarrow> cursor \<Rightarrow> dnsmsg_rr_t list \<times> cursor" where
  "interpret_rr amount c = interpret_rr_loop (unat amount) c"

text \<open>One round of the question loop of \<^verbatim>\<open>interpret_question\<close>, and the loop.\<close>

definition interpret_question_entry :: "cursor \<Rightarrow> dnsmsg_question_t \<times> cursor" where
  "interpret_question_entry c =
     (let (labels, labels_size, c1) = interpret_labels c;
          (type, c2) = pop_int16 c1;
          (cls, c3) = pop_int16 c2
      in (\<lparr>q_labels = labels, q_labels_size = labels_size, q_type = type, q_class = cls\<rparr>,
          c3))"

primrec interpret_question_loop :: "nat \<Rightarrow> cursor \<Rightarrow> dnsmsg_question_t list \<times> cursor" where
  "interpret_question_loop 0 c = ([], c)"
| "interpret_question_loop (Suc n) c =
     (let (q, c1) = interpret_question_entry c;
          (qs, c2) = interpret_question_loop n c1
      in (q # qs, c2))"

text \<open>
  The walk of \<^verbatim>\<open>interpret_question\<close> over the whole declared structure (its lines up
  to the last call of \<^verbatim>\<open>interpret_rr\<close>), returning the message and the cursor it ends
  with.
\<close>

definition interpret_message :: "cursor \<Rightarrow> dnsmsg_t \<times> cursor" where
  "interpret_message c =
     (let (m_id, c1) = pop_int16 c;
          (m_status_flags, c2) = pop_int16 c1;
          (m_query_count, c3) = pop_int16 c2;
          (m_answer_count, c4) = pop_int16 c3;
          (m_authority_count, c5) = pop_int16 c4;
          (m_additional_count, c6) = pop_int16 c5;
          (m_questions, c7) = interpret_question_loop (unat m_query_count) c6;
          (m_answers, c8) = interpret_rr m_answer_count c7;
          (m_authorities, c9) = interpret_rr m_authority_count c8;
          (m_additionals, c10) = interpret_rr m_additional_count c9
      in (\<lparr>header = \<lparr>id_field = m_id, status_flags = m_status_flags,
                      query_count = m_query_count, answer_count = m_answer_count,
                      authority_count = m_authority_count,
                      additional_count = m_additional_count\<rparr>,
           questions = m_questions, answers = m_answers,
           authorities = m_authorities, additionals = m_additionals\<rparr>, c10))"

text \<open>
  \<^verbatim>\<open>interpret_question\<close> itself: the third argument is the value that the caller's
  \<^verbatim>\<open>int\<close> behind \<^verbatim>\<open>error_flag\<close> holds at the call, the second result the value it
  holds at the return. The message printed to \<^verbatim>\<open>stderr\<close> is not modelled.
\<close>

definition interpret_question :: "uint8_t stream \<Rightarrow> int \<Rightarrow> c_int \<Rightarrow> dnsmsg_t \<times> c_int" where
  "interpret_question buf len error_flag =
     (let (message, c) = interpret_message \<lparr>buffer = buf, buffer_size = len\<rparr>
      in (message, if buffer_size c < 0 then 1 else error_flag))"

subsection \<open>C arrays\<close>

text \<open>
  The loops \<^verbatim>\<open>for(i = 0; i < n; i++)\<close> over an array \<^verbatim>\<open>a\<close> read \<^verbatim>\<open>a[0]\<close> to
  \<^verbatim>\<open>a[n - 1]\<close> in this order. \<open>c_array a n\<close> is the list of these elements; where the
  array holds fewer than \<open>n\<close> elements the loop reads outside of it, which has no
  defined result in C and is \<open>None\<close> here. A loop whose body may fail in this way
  is \<open>for_each\<close> over the elements: it stops at the first failure.
\<close>

definition c_array :: "'a list \<Rightarrow> nat \<Rightarrow> 'a list option" where
  "c_array a n = (if n \<le> length a then Some (take n a) else None)"

primrec for_each :: "('s \<Rightarrow> 'a \<Rightarrow> 's option) \<Rightarrow> 's \<Rightarrow> 'a list \<Rightarrow> 's option" where
  "for_each body s [] = Some s"
| "for_each body s (x # xs) = body s x \<bind> (\<lambda>s'. for_each body s' xs)"

subsection \<open>The size of a message\<close>

text \<open>
  Modelled from the spec: the values of \<^verbatim>\<open>sizeof\<close> depend on the declarations of the
  missing header. With the field widths of the data model, \<^verbatim>\<open>sizeof\<close> is 1 for
  \<^verbatim>\<open>name_size\<close>, 2 for \<^verbatim>\<open>type\<close>, \<^verbatim>\<open>class\<close> and \<^verbatim>\<open>data_size\<close>, 4 for \<^verbatim>\<open>ttl\<close>, and 12 for
  \<^verbatim>\<open>dnsmsg_header_t\<close>, a structure of six 16-bit fields.
\<close>

definition sizeof_name_size :: size_t where "sizeof_name_size = 1"
definition sizeof_uint8_t :: size_t where "sizeof_uint8_t = 1"
definition sizeof_type :: size_t where "sizeof_type = 2"
definition sizeof_class :: size_t where "sizeof_class = 2"
definition sizeof_ttl :: size_t where "sizeof_ttl = 4"
definition sizeof_data_size :: size_t where "sizeof_data_size = 2"
definition sizeof_dnsmsg_header_t :: size_t where "sizeof_dnsmsg_header_t = 12"

definition calc_labels_size :: "dnsmsg_label_t list \<Rightarrow> uint16_t \<Rightarrow> size_t option" where
  "calc_labels_size labels labels_size =
     do {
       ls \<leftarrow> c_array labels (unat labels_size);
       for_each (\<lambda>size l. Some (size + sizeof_name_size + ucast (name_size l) * sizeof_uint8_t))
         1 ls
     }"

definition calc_resource_records_size :: "dnsmsg_rr_t list \<Rightarrow> uint16_t \<Rightarrow> size_t option" where
  "calc_resource_records_size resource_records amount =
     do {
       rs \<leftarrow> c_array resource_records (unat amount);
       for_each (\<lambda>size r.
           do {
             l \<leftarrow> calc_labels_size (rr_labels r) (rr_labels_size r);
             Some (size + l + sizeof_type + sizeof_class + sizeof_ttl + sizeof_data_size
                   + ucast (rr_data_size r) * sizeof_uint8_t)
           })
         0 rs
     }"

definition calc_message_size :: "dnsmsg_t \<Rightarrow> size_t option" where
  "calc_message_size message =
     do {
       qs \<leftarrow> c_array (questions message) (unat (query_count (header message)));
       size \<leftarrow> for_each (\<lambda>size q.
           do {
             l \<leftarrow> calc_labels_size (q_labels q) (q_labels_size q);
             Some (size + l + sizeof_type + sizeof_class)
           })
         sizeof_dnsmsg_header_t qs;
       an \<leftarrow> calc_resource_records_size (answers message) (answer_count (header message));
       au \<leftarrow> calc_resource_records_size (authorities message)
               (authority_count (header message));
       ad \<leftarrow> calc_resource_records_size (additionals message)
               (additional_count (header message));
       Some (size + an + au + ad)
     }"

subsection \<open>Writing\<close>

text \<open>
  The writer's state is the allocated block behind \<^verbatim>\<open>*buffer\<close> and the variable
  \<^verbatim>\<open>index\<close>, an \<^verbatim>\<open>unsigned int\<close> that wraps around at \<open>2 ^ 32\<close>. A write at an
  index outside the block has no defined result in C and is \<open>None\<close> here.
\<close>

record writer =
  block :: "uint8_t list"
  index :: c_uint

definition append_int8 :: "writer \<Rightarrow> uint8_t \<Rightarrow> writer option" where
  "append_int8 w v =
     (if unat (index w) < length (block w)
      then Some \<lparr>block = (block w)[unat (index w) := v], index = index w + 1\<rparr>
      else None)"

definition append_int16 :: "writer \<Rightarrow> uint16_t \<Rightarrow> writer option" where
  "append_int16 w v =
     do {
       w1 \<leftarrow> append_int8 w (ucast (drop_bit 8 v));
       append_int8 w1 (ucast (v AND 255))
     }"

definition append_int32 :: "writer \<Rightarrow> uint32_t \<Rightarrow> writer option" where
  "append_int32 w v =
     do {
       w1 \<leftarrow> append_int16 w (ucast (drop_bit 16 v));
       append_int16 w1 (ucast (v AND 65535))
     }"

text \<open>One round of the outer loop of \<^verbatim>\<open>append_labels\<close>, then the function.\<close>

definition append_label :: "writer \<Rightarrow> dnsmsg_label_t \<Rightarrow> writer option" where
  "append_label w l =
     do {
       w1 \<leftarrow> append_int8 w (name_size l);
       octets \<leftarrow> c_array (name l) (unat (name_size l));
       for_each append_int8 w1 octets
     }"

definition append_labels :: "writer \<Rightarrow> dnsmsg_label_t list \<Rightarrow> uint16_t \<Rightarrow> writer option" where
  "append_labels w labels labels_size =
     do {
       ls \<leftarrow> c_array labels (unat labels_size);
       w1 \<leftarrow> for_each append_label w ls;
       append_int8 w1 0
     }"

text \<open>One round of the loop of \<^verbatim>\<open>append_resource_records\<close>, then the function.\<close>

definition append_resource_record :: "writer \<Rightarrow> dnsmsg_rr_t \<Rightarrow> writer option" where
  "append_resource_record w r =
     do {
       w1 \<leftarrow> append_labels w (rr_labels r) (rr_labels_size r);
       w2 \<leftarrow> append_int16 w1 (rr_type r);
       w3 \<leftarrow> append_int16 w2 (rr_class r);
       w4 \<leftarrow> append_int32 w3 (rr_ttl r);
       w5 \<leftarrow> append_int16 w4 (rr_data_size r);
       octets \<leftarrow> c_array (rr_data r) (unat (rr_data_size r));
       for_each append_int8 w5 octets
     }"

definition append_resource_records ::
  "writer \<Rightarrow> dnsmsg_rr_t list \<Rightarrow> uint16_t \<Rightarrow> writer option" where
  "append_resource_records w resource_records amount =
     do {
       rs \<leftarrow> c_array resource_records (unat amount);
       for_each append_resource_record w rs
     }"

text \<open>One round of the question loop of \<^verbatim>\<open>serialize_message\<close>.\<close>

definition append_question :: "writer \<Rightarrow> dnsmsg_question_t \<Rightarrow> writer option" where
  "append_question w q =
     do {
       w1 \<leftarrow> append_labels w (q_labels q) (q_labels_size q);
       w2 \<leftarrow> append_int16 w1 (q_type q);
       append_int16 w2 (q_class q)
     }"

text \<open>
  \<^verbatim>\<open>serialize_message\<close>. The block that \<^verbatim>\<open>malloc\<close> returns has the requested length
  and indeterminate contents: the first argument gives the octet that each of its
  cells holds before anything is written. The C code does not check the result of
  \<^verbatim>\<open>malloc\<close>; the model takes the allocation to succeed. The results are the block, the value
  stored through \<^verbatim>\<open>buffer_size\<close> (an \<^verbatim>\<open>ssize_t\<close>: the size read as signed, and
  converted back to \<^verbatim>\<open>size_t\<close> for \<^verbatim>\<open>malloc\<close>), and the value of the local variable
  \<^verbatim>\<open>index\<close> at the return.
\<close>

definition serialize_message ::
  "(nat \<Rightarrow> uint8_t) \<Rightarrow> dnsmsg_t \<Rightarrow> (uint8_t list \<times> int \<times> c_uint) option" where
  "serialize_message heap message =
     do {
       size \<leftarrow> calc_message_size message;
       let stored_size = sint size;
       let w0 = \<lparr>block = map heap [0..<unat (word_of_int stored_size :: size_t)],
                 index = 0\<rparr>;
       w1 \<leftarrow> append_int16 w0 (id_field (header message));
       w2 \<leftarrow> append_int16 w1 (status_flags (header message));
       w3 \<leftarrow> append_int16 w2 (query_count (header message));
       w4 \<leftarrow> append_int16 w3 (answer_count (header message));
       w5 \<leftarrow> append_int16 w4 (authority_count (header message));
       w6 \<leftarrow> append_int16 w5 (additional_count (header message));
       qs \<leftarrow> c_array (questions message) (unat (query_count (header message)));
       w7 \<leftarrow> for_each append_question w6 qs;
       w8 \<leftarrow> append_resource_records w7 (answers message) (answer_count (header message));
       w9 \<leftarrow> append_resource_records w8 (authorities message)
              (authority_count (header message));
       w10 \<leftarrow> append_resource_records w9 (additionals message)
               (additional_count (header message));
       Some (block w10, stored_size, index w10)
     }"

section \<open>Definitions of the specification\<close>

text \<open>
  The bit layout that the spec gives for the status word, most significant bit first:
  qr (1 bit), opcode (4), aa (1), tc (1), rd (1), ra (1), the reserved field Z (3,
  written as 0), rcode (4). \<open>flags_layout \<dots> n\<close> is the value the layout gives to
  bit \<open>n\<close> of the word, bit 0 being the least significant one.
\<close>

definition flags_layout ::
  "c_int \<Rightarrow> c_int \<Rightarrow> c_int \<Rightarrow> c_int \<Rightarrow> c_int \<Rightarrow> c_int \<Rightarrow> c_int \<Rightarrow> nat \<Rightarrow> bool" where
  "flags_layout qr opcode aa tc rd ra rcode n =
     (if n = 15 then bit qr 0
      else if 11 \<le> n then bit opcode (n - 11)
      else if n = 10 then bit aa 0
      else if n = 9 then bit tc 0
      else if n = 8 then bit rd 0
      else if n = 7 then bit ra 0
      else if 4 \<le> n then False
      else bit rcode n)"

text \<open>
  The wire format of the spec's section on external interfaces. A 16-bit and a 32-bit
  field are big-endian. A label is its length octet followed by its octets; a name is
  its labels in order followed by one zero octet. A question is a name, the type and
  the class; a resource record is a name, type, class, ttl, the data size and the
  data. A message is the six header fields, the questions, and the answer, authority
  and additional records.
\<close>

definition wire_int16 :: "uint16_t \<Rightarrow> uint8_t list" where
  "wire_int16 v = [ucast (drop_bit 8 v), ucast v]"

definition wire_int32 :: "uint32_t \<Rightarrow> uint8_t list" where
  "wire_int32 v = [ucast (drop_bit 24 v), ucast (drop_bit 16 v), ucast (drop_bit 8 v), ucast v]"

definition wire_label :: "dnsmsg_label_t \<Rightarrow> uint8_t list" where
  "wire_label l = name_size l # name l"

definition wire_labels :: "dnsmsg_label_t list \<Rightarrow> uint8_t list" where
  "wire_labels ls = concat (map wire_label ls) @ [0]"

definition wire_question :: "dnsmsg_question_t \<Rightarrow> uint8_t list" where
  "wire_question q = wire_labels (q_labels q) @ wire_int16 (q_type q) @ wire_int16 (q_class q)"

definition wire_rr :: "dnsmsg_rr_t \<Rightarrow> uint8_t list" where
  "wire_rr r = wire_labels (rr_labels r) @ wire_int16 (rr_type r) @ wire_int16 (rr_class r)
     @ wire_int32 (rr_ttl r) @ wire_int16 (rr_data_size r) @ rr_data r"

definition wire_header :: "dnsmsg_header_t \<Rightarrow> uint8_t list" where
  "wire_header h = wire_int16 (id_field h) @ wire_int16 (status_flags h)
     @ wire_int16 (query_count h) @ wire_int16 (answer_count h)
     @ wire_int16 (authority_count h) @ wire_int16 (additional_count h)"

definition wire_message :: "dnsmsg_t \<Rightarrow> uint8_t list" where
  "wire_message m = wire_header (header m)
     @ concat (map wire_question (questions m))
     @ concat (map wire_rr (answers m))
     @ concat (map wire_rr (authorities m))
     @ concat (map wire_rr (additionals m))"

text \<open>
  The size of a message as the spec computes it: 12 octets for the header; for each
  question its label-list size plus 4; for each resource record of the three sections
  its label-list size plus 2 + 2 + 4 + 2 plus its data size. The label-list size is
  1 plus the sum over the labels of 1 plus the label length.
\<close>

definition label_list_size :: "dnsmsg_label_t list \<Rightarrow> nat" where
  "label_list_size ls = 1 + (\<Sum>l\<leftarrow>ls. 1 + unat (name_size l))"

definition question_size :: "dnsmsg_question_t \<Rightarrow> nat" where
  "question_size q = label_list_size (q_labels q) + 4"

definition rr_size :: "dnsmsg_rr_t \<Rightarrow> nat" where
  "rr_size r = label_list_size (rr_labels r) + 2 + 2 + 4 + 2 + unat (rr_data_size r)"

definition compute_size :: "dnsmsg_t \<Rightarrow> nat" where
  "compute_size m =
     12 + (\<Sum>q\<leftarrow>questions m. question_size q)
        + (\<Sum>r\<leftarrow>answers m @ authorities m @ additionals m. rr_size r)"

text \<open>
  The invariants of the spec's data model. In \<open>counts_match\<close> every count is the length
  of its array: the four header counts, and \<^verbatim>\<open>labels_size\<close> for the labels of each
  question and record. A structurally valid message has, in addition, labels whose
  length is between 1 and 255 and is the number of their octets, and records whose
  \<^verbatim>\<open>data_size\<close> is the length of their data.
\<close>

definition counts_match :: "dnsmsg_t \<Rightarrow> bool" where
  "counts_match m \<longleftrightarrow>
     unat (query_count (header m)) = length (questions m)
     \<and> unat (answer_count (header m)) = length (answers m)
     \<and> unat (authority_count (header m)) = length (authorities m)
     \<and> unat (additional_count (header m)) = length (additionals m)
     \<and> list_all (\<lambda>q. unat (q_labels_size q) = length (q_labels q)) (questions m)
     \<and> list_all (\<lambda>r. unat (rr_labels_size r) = length (rr_labels r))
          (answers m @ authorities m @ additionals m)"

definition valid_label :: "dnsmsg_label_t \<Rightarrow> bool" where
  "valid_label l \<longleftrightarrow> 1 \<le> unat (name_size l) \<and> unat (name_size l) \<le> 255
     \<and> unat (name_size l) = length (name l)"

definition valid_question :: "dnsmsg_question_t \<Rightarrow> bool" where
  "valid_question q \<longleftrightarrow> unat (q_labels_size q) = length (q_labels q)
     \<and> list_all valid_label (q_labels q)"

definition valid_rr :: "dnsmsg_rr_t \<Rightarrow> bool" where
  "valid_rr r \<longleftrightarrow> unat (rr_labels_size r) = length (rr_labels r)
     \<and> list_all valid_label (rr_labels r)
     \<and> unat (rr_data_size r) = length (rr_data r)"

definition valid_message :: "dnsmsg_t \<Rightarrow> bool" where
  "valid_message m \<longleftrightarrow>
     unat (query_count (header m)) = length (questions m)
     \<and> unat (answer_count (header m)) = length (answers m)
     \<and> unat (authority_count (header m)) = length (authorities m)
     \<and> unat (additional_count (header m)) = length (additionals m)
     \<and> list_all valid_question (questions m)
     \<and> list_all valid_rr (answers m)
     \<and> list_all valid_rr (authorities m)
     \<and> list_all valid_rr (additionals m)"

text \<open>
  Decoding what encoding produced: the block and the size that \<open>serialize_message\<close>
  hands out are given to \<open>interpret_question\<close>. \<open>rest\<close> is the memory behind the block,
  \<open>error_flag\<close> the value of the caller's flag before the call.
\<close>

definition round_trip :: "(nat \<Rightarrow> uint8_t) \<Rightarrow> uint8_t stream \<Rightarrow> c_int \<Rightarrow> dnsmsg_t \<Rightarrow> (dnsmsg_t \<times> c_int) option" where
  "round_trip heap rest error_flag m =
     map_option (\<lambda>(buf, len, idx). interpret_question (buf @- rest) len error_flag)
       (serialize_message heap m)"

text \<open>
  Two cursors agree when the second covers what the first covers and \<open>d\<close> octets
  more: their views hold the same octets as far as the counter of the first reaches.
\<close>

definition agree :: "int \<Rightarrow> cursor \<Rightarrow> cursor \<Rightarrow> bool" where
  "agree d c c' \<longleftrightarrow>
     0 \<le> d \<and> buffer_size c' = buffer_size c + d
     \<and> stake (nat (buffer_size c)) (buffer c) = stake (nat (buffer_size c)) (buffer c')"

text \<open>
  The message and the 29 octets of the spec's concrete scenario; the octets of
  \<^verbatim>\<open>example\<close> are 65 78 61 6D 70 6C 65 and those of \<^verbatim>\<open>com\<close> are 63 6F 6D.
\<close>

definition example_message :: dnsmsg_t where
  "example_message =
     \<lparr>header = \<lparr>id_field = 0x1234, status_flags = 0x0100, query_count = 1, answer_count = 0,
                 authority_count = 0, additional_count = 0\<rparr>,
      questions = [\<lparr>q_labels = [\<lparr>name_size = 7, name = [0x65, 0x78, 0x61, 0x6D, 0x70, 0x6C, 0x65]\<rparr>,
                                 \<lparr>name_size = 3, name = [0x63, 0x6F, 0x6D]\<rparr>],
                     q_labels_size = 2, q_type = 1, q_class = 1\<rparr>],
      answers = [], authorities = [], additionals = []\<rparr>"

definition example_octets :: "uint8_t list" where
  "example_octets =
     [0x12, 0x34, 0x01, 0x00, 0x00, 0x01, 0x00, 0x00, 0x00, 0x00, 0x00, 0x00,
      0x07, 0x65, 0x78, 0x61, 0x6D, 0x70, 0x6C, 0x65, 0x03, 0x63, 0x6F, 0x6D, 0x00,
      0x00, 0x01, 0x00, 0x01]"

text \<open>A header that declares one question, with nothing behind it.\<close>

definition lone_header :: "uint8_t list" where
  "lone_header = [0, 0, 0, 0, 0, 1, 0, 0, 0, 0, 0, 0]"

text \<open>
  A structurally valid message of \<open>2 ^ 32 + 2\<close> octets: 256 questions of 65535 labels
  of 255 octets each, and a last question of 250 such labels and one of 240 octets.
  The class of the last question is \<open>0xFFFF\<close>, the identifier of the message is 0.
\<close>

definition big_label :: dnsmsg_label_t where
  "big_label = \<lparr>name_size = 255, name = replicate 255 0x61\<rparr>"

definition short_label :: dnsmsg_label_t where
  "short_label = \<lparr>name_size = 240, name = replicate 240 0x61\<rparr>"

definition big_question :: dnsmsg_question_t where
  "big_question = \<lparr>q_labels = replicate 65535 big_label, q_labels_size = 65535,
     q_type = 1, q_class = 1\<rparr>"

definition last_question :: dnsmsg_question_t where
  "last_question = \<lparr>q_labels = replicate 250 big_label @ [short_label],
     q_labels_size = 251, q_type = 1, q_class = 0xFFFF\<rparr>"

definition huge_message :: dnsmsg_t where
  "huge_message = \<lparr>header = \<lparr>id_field = 0, status_flags = 0, query_count = 257,
       answer_count = 0, authority_count = 0, additional_count = 0\<rparr>,
     questions = replicate 256 big_question @ [last_question],
     answers = [], authorities = [], additionals = []\<rparr>"

definition zero_heap :: "nat \<Rightarrow> uint8_t" where
  "zero_heap a = 0"

section \<open>Properties of the header status flags\<close>

lemma and_15_take_bit: "x AND 15 = take_bit 4 x" for x :: "'a::len word"
proof -
  have eq: "(15 :: 'a word) = mask 4"
    by (simp add: mask_eq_exp_minus_1)
  show ?thesis
    by (subst eq) (simp add: take_bit_eq_mask)
qed

lemma take_bit_4_le: "x \<le> 15 \<Longrightarrow> take_bit 4 x = x" for x :: c_int
proof -
  assume "x \<le> 15"
  then have "x < 2 ^ 4"
    by (simp add: word_le_less_eq) unat_arith
  then have "x AND mask 4 = x"
    by (rule less_mask_eq)
  then show ?thesis
    by (simp add: take_bit_eq_mask)
qed

lemma take_bit_1_le: "x \<le> 1 \<Longrightarrow> take_bit (Suc 0) x = x" for x :: c_int
proof -
  assume "x \<le> 1"
  then have "x < 2 ^ 1"
    by (simp add: word_le_less_eq) unat_arith
  then have "x AND mask 1 = x"
    by (rule less_mask_eq)
  then show ?thesis
    by (simp add: take_bit_eq_mask)
qed

lemma decode_encode_take_bit:
  "decode_status_flags
     (encode_status_flags (take_bit (Suc 0) qr) (take_bit 4 opcode) (take_bit (Suc 0) aa)
        (take_bit (Suc 0) tc) (take_bit (Suc 0) rd) (take_bit (Suc 0) ra) (take_bit 4 rcode))
   = (take_bit (Suc 0) qr, take_bit 4 opcode, take_bit (Suc 0) aa, take_bit (Suc 0) tc,
      take_bit (Suc 0) rd, take_bit (Suc 0) ra, take_bit 4 rcode)"
  unfolding decode_status_flags_def encode_status_flags_def Let_def prod.inject and_15_take_bit
  apply (intro conjI)
  subgoal by (rule bit_word_eqI) (auto simp: bit_simps)
  subgoal by (rule bit_word_eqI) (auto simp: bit_simps)
  subgoal by (rule bit_word_eqI) (auto simp: bit_simps)
  subgoal by (rule bit_word_eqI) (auto simp: bit_simps)
  subgoal by (rule bit_word_eqI) (auto simp: bit_simps)
  subgoal by (rule bit_word_eqI) (auto simp: bit_simps)
  subgoal by (rule bit_word_eqI) (auto simp: bit_simps)
  done

lemma encode_layout_take_bit:
  "n < 16 \<Longrightarrow>
   bit (encode_status_flags (take_bit (Suc 0) qr) (take_bit 4 opcode) (take_bit (Suc 0) aa)
          (take_bit (Suc 0) tc) (take_bit (Suc 0) rd) (take_bit (Suc 0) ra)
          (take_bit 4 rcode)) n
   = flags_layout (take_bit (Suc 0) qr) (take_bit 4 opcode) (take_bit (Suc 0) aa)
       (take_bit (Suc 0) tc) (take_bit (Suc 0) rd) (take_bit (Suc 0) ra) (take_bit 4 rcode) n"
  unfolding encode_status_flags_def Let_def flags_layout_def
  by (auto simp: bit_simps bit_0)

text \<open>
  Claim C6. For qr, aa, tc, rd and ra in \<open>{0, 1}\<close> and opcode and rcode in \<open>0..15\<close>,
  decoding the encoded status word gives the seven values back, and every bit of the
  encoded word is the one the layout qr | opcode | aa | tc | rd | ra | Z = 0 | rcode
  puts there.
\<close>

theorem status_flags_round_trip:
  assumes "qr \<le> 1" and "aa \<le> 1" and "tc \<le> 1" and "rd \<le> 1" and "ra \<le> 1"
    and "opcode \<le> 15" and "rcode \<le> 15"
  shows "decode_status_flags (encode_status_flags qr opcode aa tc rd ra rcode)
           = (qr, opcode, aa, tc, rd, ra, rcode)
         \<and> (\<forall>n<16. bit (encode_status_flags qr opcode aa tc rd ra rcode) n
                     = flags_layout qr opcode aa tc rd ra rcode n)"
  using decode_encode_take_bit [of qr opcode aa tc rd ra rcode]
    encode_layout_take_bit [of _ qr opcode aa tc rd ra rcode] assms
  by (simp only: take_bit_4_le take_bit_1_le) simp

theorem status_flags_round_trip_witness:
  "(1 :: c_int) \<le> 1 \<and> (0 :: c_int) \<le> 1 \<and> (2 :: c_int) \<le> 15 \<and> (3 :: c_int) \<le> 15
   \<and> decode_status_flags (encode_status_flags 1 2 1 0 1 1 3) = (1, 2, 1, 0, 1, 1, 3)
   \<and> bit (encode_status_flags 1 2 1 0 1 1 3) 15
   \<and> \<not> bit (encode_status_flags 1 2 1 0 1 1 3) 5"
  using status_flags_round_trip [of 1 1 0 1 1 2 3]
  by (simp add: flags_layout_def)

text \<open>
  Claim C9. \<open>is_truncated\<close> is bit 9 of the header's status word, as the C truth value
  1 or 0, whatever the other bits of the word are.
\<close>

theorem is_truncated_bit_9:
  "is_truncated m = (if bit (status_flags (header m)) 9 then 1 else 0)"
  unfolding is_truncated_def
  by (rule bit_word_eqI) (auto simp: bit_simps intro: gr0I)

section \<open>Properties of the cursor\<close>

lemma pop_int8_eq:
  "pop_int8 c =
     (if 0 \<le> buffer_size c - 1
      then (shd (buffer c), c\<lparr>buffer := stl (buffer c), buffer_size := buffer_size c - 1\<rparr>)
      else (0, c\<lparr>buffer_size := buffer_size c - 1\<rparr>))"
  by (simp add: pop_int8_def Let_def)

lemma buffer_size_pop_int8 [simp]: "buffer_size (snd (pop_int8 c)) = buffer_size c - 1"
  by (simp add: pop_int8_def Let_def)

lemma buffer_size_pop_int16 [simp]: "buffer_size (snd (pop_int16 c)) = buffer_size c - 2"
  by (simp add: pop_int16_def split_beta)

lemma buffer_size_pop_int32 [simp]: "buffer_size (snd (pop_int32 c)) = buffer_size c - 4"
  by (simp add: pop_int32_def split_beta)

lemma buffer_size_pop_octets [simp]:
  "buffer_size (snd (pop_octets n c)) = buffer_size c - int n"
  by (induction n arbitrary: c) (simp_all add: split_beta)

lemma ucast_int_or_16:
  "(ucast (push_bit 8 (ucast hi :: c_int) OR (ucast lo :: c_int)) :: uint16_t)
     = push_bit 8 (ucast hi) OR ucast lo" for hi lo :: uint8_t
  by (rule bit_word_eqI) (auto simp: bit_simps)

lemma ucast_int_or_32:
  "(ucast (push_bit 16 (ucast hi :: c_int) OR (ucast lo :: c_int)) :: uint32_t)
     = push_bit 16 (ucast hi) OR ucast lo" for hi lo :: uint16_t
  by (rule bit_word_eqI) (auto simp: bit_simps)

text \<open>
  Claim C3. In every cursor state from which the decrements stay inside the range of
  the \<^verbatim>\<open>ssize_t\<close> counter, \<open>pop_int8\<close> decrements the counter by one; if the counter
  is then still non-negative it returns the front octet and advances the view,
  otherwise it returns 0 and leaves the view alone, so it has a result also when the
  counter is already negative. \<open>pop_int16\<close> is the first popped octet shifted left
  by 8 or-ed with the second, \<open>pop_int32\<close> the first popped 16-bit value shifted left
  by 16 or-ed with the second; they decrement the counter by 2 and 4. The counter
  after each of them is again a value of \<^verbatim>\<open>ssize_t\<close>, so the integer of the model is
  the value the C variable holds. A decrement at the least value of \<^verbatim>\<open>ssize_t\<close>
  overflows in C and is outside of this statement.
\<close>

theorem pop_int_cursor:
  "(- (2 ^ 63) + 1 \<le> buffer_size c \<and> buffer_size c < 2 ^ 63 \<longrightarrow>
      pop_int8 c =
        (if 0 \<le> buffer_size c - 1
         then (shd (buffer c), \<lparr>buffer = stl (buffer c), buffer_size = buffer_size c - 1\<rparr>)
         else (0, \<lparr>buffer = buffer c, buffer_size = buffer_size c - 1\<rparr>))
      \<and> - (2 ^ 63) \<le> buffer_size (snd (pop_int8 c))
      \<and> buffer_size (snd (pop_int8 c)) < 2 ^ 63)
   \<and> (- (2 ^ 63) + 2 \<le> buffer_size c \<and> buffer_size c < 2 ^ 63 \<longrightarrow>
      pop_int16 c =
        (let (first, c1) = pop_int8 c; (second, c2) = pop_int8 c1
         in (push_bit 8 (ucast first) OR ucast second, c2))
      \<and> buffer_size (snd (pop_int16 c)) = buffer_size c - 2
      \<and> - (2 ^ 63) \<le> buffer_size (snd (pop_int16 c))
      \<and> buffer_size (snd (pop_int16 c)) < 2 ^ 63)
   \<and> (- (2 ^ 63) + 4 \<le> buffer_size c \<and> buffer_size c < 2 ^ 63 \<longrightarrow>
      pop_int32 c =
        (let (first, c1) = pop_int16 c; (second, c2) = pop_int16 c1
         in (push_bit 16 (ucast first) OR ucast second, c2))
      \<and> buffer_size (snd (pop_int32 c)) = buffer_size c - 4
      \<and> - (2 ^ 63) \<le> buffer_size (snd (pop_int32 c))
      \<and> buffer_size (snd (pop_int32 c)) < 2 ^ 63)"
  by (simp add: pop_int8_eq pop_int16_def pop_int32_def split_beta
      ucast_int_or_16 ucast_int_or_32)

theorem pop_int_cursor_witness:
  "- (2 ^ 63) + 4 \<le> (3 :: int) \<and> (3 :: int) < 2 ^ 63
   \<and> pop_int8 \<lparr>buffer = 0x12 ## 0x34 ## 0x56 ## 0x78 ## sconst 0, buffer_size = 3\<rparr>
       = (0x12, \<lparr>buffer = 0x34 ## 0x56 ## 0x78 ## sconst 0, buffer_size = 2\<rparr>)
   \<and> pop_int16 \<lparr>buffer = 0x12 ## 0x34 ## 0x56 ## 0x78 ## sconst 0, buffer_size = 3\<rparr>
       = (0x1234, \<lparr>buffer = 0x56 ## 0x78 ## sconst 0, buffer_size = 1\<rparr>)
   \<and> pop_int32 \<lparr>buffer = 0x12 ## 0x34 ## 0x56 ## 0x78 ## sconst 0, buffer_size = 3\<rparr>
       = (0x12345600, \<lparr>buffer = 0x78 ## sconst 0, buffer_size = - 1\<rparr>)
   \<and> - (2 ^ 63) + 1 \<le> (- 1 :: int) \<and> (- 1 :: int) < 2 ^ 63
   \<and> pop_int8 \<lparr>buffer = 0x78 ## sconst 0, buffer_size = - 1\<rparr>
       = (0, \<lparr>buffer = 0x78 ## sconst 0, buffer_size = - 2\<rparr>)"
  using pop_int_cursor
      [of "\<lparr>buffer = 0x12 ## 0x34 ## 0x56 ## 0x78 ## sconst 0, buffer_size = 3\<rparr>"]
    pop_int_cursor [of "\<lparr>buffer = 0x78 ## sconst 0, buffer_size = - 1\<rparr>"]
  by (simp add: pop_int8_def pop_int16_def Let_def)

section \<open>Properties of the writer\<close>

lemma for_each_append:
  "for_each body s (xs @ ys) = for_each body s xs \<bind> (\<lambda>s'. for_each body s' ys)"
  by (induction xs arbitrary: s) (simp_all)

lemma for_each_append_Some:
  "for_each body s xs = Some s' \<Longrightarrow> for_each body s (xs @ ys) = for_each body s' ys"
  by (simp add: for_each_append)

lemma c_array_all [simp]: "n = length a \<Longrightarrow> c_array a n = Some a"
  by (simp add: c_array_def)

lemma ucast_and_255: "(ucast (v AND 255) :: uint8_t) = ucast v" for v :: uint16_t
proof -
  have eq: "(255 :: uint16_t) = mask 8"
    by (simp add: mask_eq_exp_minus_1)
  show ?thesis
    by (subst eq, rule bit_word_eqI) (auto simp: bit_simps)
qed

lemma append_int16_octets: "append_int16 w v = for_each append_int8 w (wire_int16 v)"
  by (simp add: append_int16_def wire_int16_def ucast_and_255)

lemma ucast_and_65535: "(ucast (v AND 65535) :: uint16_t) = ucast v" for v :: uint32_t
proof -
  have eq: "(65535 :: uint32_t) = mask 16"
    by (simp add: mask_eq_exp_minus_1)
  show ?thesis
    by (subst eq, rule bit_word_eqI) (auto simp: bit_simps)
qed

lemma ucast_drop_bit_8_16: "(ucast (drop_bit 8 (ucast (drop_bit 16 v) :: uint16_t)) :: uint8_t) = ucast (drop_bit 24 v)"
  for v :: uint32_t
  by (rule bit_word_eqI) (auto simp: bit_simps)

lemma ucast_ucast_16_8: "(ucast (ucast v :: uint16_t) :: uint8_t) = ucast v"
  for v :: uint32_t
  by (rule bit_word_eqI) (auto simp: bit_simps)

lemma ucast_drop_bit_8_ucast: "(ucast (drop_bit 8 (ucast v :: uint16_t)) :: uint8_t) = ucast (drop_bit 8 v)"
  for v :: uint32_t
  by (rule bit_word_eqI) (auto simp: bit_simps)

lemma ucast_ucast_drop_16_8: "(ucast (ucast (drop_bit 16 v) :: uint16_t) :: uint8_t) = ucast (drop_bit 16 v)"
  for v :: uint32_t
  by (rule bit_word_eqI) (auto simp: bit_simps)

lemma append_int32_octets: "append_int32 w v = for_each append_int8 w (wire_int32 v)"
proof -
  have "wire_int32 v = wire_int16 (ucast (drop_bit 16 v)) @ wire_int16 (ucast (v AND 65535))"
    by (simp add: wire_int32_def wire_int16_def ucast_and_65535 ucast_drop_bit_8_16
        ucast_ucast_16_8 ucast_drop_bit_8_ucast ucast_ucast_drop_16_8)
  then show ?thesis
    by (simp add: append_int32_def append_int16_octets for_each_append)
qed

lemma append_label_octets:
  "unat (name_size l) = length (name l) \<Longrightarrow>
   append_label w l = for_each append_int8 w (wire_label l)"
  by (simp add: append_label_def wire_label_def)

lemma for_each_append_label:
  "\<forall>l\<in>set ls. unat (name_size l) = length (name l) \<Longrightarrow>
   for_each append_label w ls = for_each append_int8 w (concat (map wire_label ls))"
  by (induction ls arbitrary: w) (simp_all add: append_label_octets for_each_append)

lemma append_labels_octets:
  "unat labels_size = length labels \<Longrightarrow>
   \<forall>l\<in>set labels. unat (name_size l) = length (name l) \<Longrightarrow>
   append_labels w labels labels_size = for_each append_int8 w (wire_labels labels)"
  by (simp add: append_labels_def wire_labels_def for_each_append_label for_each_append)

lemma append_int8_Some:
  "unat (index w) < length (block w) \<Longrightarrow>
   append_int8 w v = Some \<lparr>block = (block w)[unat (index w) := v], index = index w + 1\<rparr>"
  by (simp add: append_int8_def)

lemma unat_index_Suc: "unat i + 1 < 2 ^ 32 \<Longrightarrow> unat (i + 1) = unat i + 1" for i :: c_uint
  by (simp add: unat_word_ariths)

lemma write_octets:
  "unat (index w) + length bs \<le> length (block w) \<Longrightarrow>
   unat (index w) + length bs < 2 ^ 32 \<Longrightarrow>
   for_each append_int8 w bs =
     Some \<lparr>block = take (unat (index w)) (block w) @ bs
                     @ drop (unat (index w) + length bs) (block w),
           index = index w + of_nat (length bs)\<rparr>"
proof (induction bs arbitrary: w)
  case Nil
  then show ?case by simp
next
  case (Cons b bs)
  let ?w1 = "\<lparr>block = (block w)[unat (index w) := b], index = index w + 1\<rparr>"
  from Cons.prems have lt: "unat (index w) < length (block w)" by simp
  from Cons.prems have u: "unat (index w + 1) = unat (index w) + 1"
    by (intro unat_index_Suc) simp
  have "for_each append_int8 ?w1 bs =
     Some \<lparr>block = take (unat (index ?w1)) (block ?w1) @ bs
                     @ drop (unat (index ?w1) + length bs) (block ?w1),
           index = index ?w1 + of_nat (length bs)\<rparr>"
    using Cons.prems u by (intro Cons.IH) simp_all
  moreover have "take (unat (index w) + 1) ((block w)[unat (index w) := b])
      = take (unat (index w)) (block w) @ [b]"
    using lt by (simp add: take_Suc_conv_app_nth)
  ultimately show ?case
    using lt u by (simp add: append_int8_Some add.assoc add.commute)
qed

text \<open>
  Claim C8. For every label list whose \<^verbatim>\<open>labels_size\<close> is its length and whose labels
  have as many octets as their length octet says, \<open>append_labels\<close> writes, from the index
  on and into a block with room for them, each label's length octet followed by its
  octets, in order, and then one zero octet: these are the octets \<open>wire_labels\<close>, and
  the index advances by their number. For the empty list this is the single octet 0.
\<close>

theorem append_labels_emits:
  assumes "unat labels_size = length labels"
    and "\<forall>l\<in>set labels. unat (name_size l) = length (name l)"
    and "unat (index w) + length (wire_labels labels) \<le> length (block w)"
    and "unat (index w) + length (wire_labels labels) < 2 ^ 32"
  shows "append_labels w labels labels_size =
     Some \<lparr>block = take (unat (index w)) (block w) @ wire_labels labels
                     @ drop (unat (index w) + length (wire_labels labels)) (block w),
           index = index w + of_nat (length (wire_labels labels))\<rparr>
     \<and> wire_labels labels = concat (map (\<lambda>l. name_size l # name l) labels) @ [0]"
proof -
  have "wire_labels labels = concat (map (\<lambda>l. name_size l # name l) labels) @ [0]"
    by (simp add: wire_labels_def wire_label_def [abs_def])
  moreover have "append_labels w labels labels_size =
     Some \<lparr>block = take (unat (index w)) (block w) @ wire_labels labels
                     @ drop (unat (index w) + length (wire_labels labels)) (block w),
           index = index w + of_nat (length (wire_labels labels))\<rparr>"
    using assms(3,4) unfolding append_labels_octets [OF assms(1,2)]
    by (rule write_octets)
  ultimately show ?thesis
    by simp
qed

theorem append_labels_emits_witness:
  "append_labels \<lparr>block = [0xAA], index = 0\<rparr> [] 0 = Some \<lparr>block = [0], index = 1\<rparr>
   \<and> wire_labels [] = [0]
   \<and> append_labels \<lparr>block = [0xAA, 0xAA, 0xAA, 0xAA, 0xAA, 0xAA, 0xAA, 0xAA], index = 1\<rparr>
         [\<lparr>name_size = 3, name = [0x63, 0x6F, 0x6D]\<rparr>, \<lparr>name_size = 1, name = [0x7A]\<rparr>] 2
       = Some \<lparr>block = [0xAA, 3, 0x63, 0x6F, 0x6D, 1, 0x7A, 0], index = 8\<rparr>"
proof -
  have "append_labels \<lparr>block = [0xAA], index = 0\<rparr> [] 0 = Some \<lparr>block = [0], index = 1\<rparr>
      \<and> wire_labels [] = [0]"
    using append_labels_emits [of 0 "[]" "\<lparr>block = [0xAA], index = 0\<rparr>"]
    by (simp add: wire_labels_def)
  moreover have "append_labels \<lparr>block = [0xAA, 0xAA, 0xAA, 0xAA, 0xAA, 0xAA, 0xAA, 0xAA], index = 1\<rparr>
         [\<lparr>name_size = 3, name = [0x63, 0x6F, 0x6D]\<rparr>, \<lparr>name_size = 1, name = [0x7A]\<rparr>] 2
       = Some \<lparr>block = [0xAA, 3, 0x63, 0x6F, 0x6D, 1, 0x7A, 0], index = 8\<rparr>"
    using append_labels_emits [of 2
        "[\<lparr>name_size = 3, name = [0x63, 0x6F, 0x6D]\<rparr>, \<lparr>name_size = 1, name = [0x7A]\<rparr>]"
        "\<lparr>block = [0xAA, 0xAA, 0xAA, 0xAA, 0xAA, 0xAA, 0xAA, 0xAA], index = 1\<rparr>"]
    by (simp add: wire_labels_def wire_label_def)
  ultimately show ?thesis
    by blast
qed

section \<open>Properties of the size computation\<close>

lemma for_each_labels_size:
  "for_each (\<lambda>size l. Some (size + sizeof_name_size + ucast (name_size l) * sizeof_uint8_t)) acc ls
   = Some (acc + of_nat (\<Sum>l\<leftarrow>ls. 1 + unat (name_size l)))"
  by (induction ls arbitrary: acc) (simp_all add: sizeof_name_size_def sizeof_uint8_t_def add.assoc)

lemma calc_labels_size_eq:
  "unat labels_size = length labels \<Longrightarrow>
   calc_labels_size labels labels_size = Some (of_nat (label_list_size labels))"
  by (simp add: calc_labels_size_def for_each_labels_size label_list_size_def)

lemma for_each_questions_size:
  "list_all (\<lambda>q. unat (q_labels_size q) = length (q_labels q)) qs \<Longrightarrow>
   for_each (\<lambda>size q. do {
       l \<leftarrow> calc_labels_size (q_labels q) (q_labels_size q);
       Some (size + l + sizeof_type + sizeof_class) }) acc qs
   = Some (acc + of_nat (\<Sum>q\<leftarrow>qs. question_size q))"
  by (induction qs arbitrary: acc)
    (simp_all add: calc_labels_size_eq question_size_def sizeof_type_def sizeof_class_def add.assoc)

lemma for_each_rr_size:
  "list_all (\<lambda>r. unat (rr_labels_size r) = length (rr_labels r)) rs \<Longrightarrow>
   for_each (\<lambda>size r. do {
       l \<leftarrow> calc_labels_size (rr_labels r) (rr_labels_size r);
       Some (size + l + sizeof_type + sizeof_class + sizeof_ttl + sizeof_data_size
             + ucast (rr_data_size r) * sizeof_uint8_t) }) acc rs
   = Some (acc + of_nat (\<Sum>r\<leftarrow>rs. rr_size r))"
  by (induction rs arbitrary: acc)
    (simp_all add: calc_labels_size_eq rr_size_def sizeof_type_def sizeof_class_def
      sizeof_ttl_def sizeof_data_size_def sizeof_uint8_t_def add.assoc)

lemma calc_resource_records_size_eq:
  "unat amount = length rs \<Longrightarrow>
   list_all (\<lambda>r. unat (rr_labels_size r) = length (rr_labels r)) rs \<Longrightarrow>
   calc_resource_records_size rs amount = Some (of_nat (\<Sum>r\<leftarrow>rs. rr_size r))"
  by (simp add: calc_resource_records_size_def for_each_rr_size)

lemma calc_message_size_eq:
  assumes "counts_match m"
  shows "calc_message_size m = Some (of_nat (compute_size m))"
proof -
  from assms have "calc_message_size m =
      Some (sizeof_dnsmsg_header_t + of_nat (\<Sum>q\<leftarrow>questions m. question_size q)
            + of_nat (\<Sum>r\<leftarrow>answers m. rr_size r)
            + of_nat (\<Sum>r\<leftarrow>authorities m. rr_size r)
            + of_nat (\<Sum>r\<leftarrow>additionals m. rr_size r))"
    by (simp add: counts_match_def calc_message_size_def for_each_questions_size
        calc_resource_records_size_eq)
  then show ?thesis
    by (simp add: compute_size_def sizeof_dnsmsg_header_t_def add.assoc)
qed

lemma sum_list_le_length_times:
  "\<forall>x\<in>set xs. f x \<le> k \<Longrightarrow> (\<Sum>x\<leftarrow>xs. f x) \<le> length xs * k" for f :: "'a \<Rightarrow> nat"
  by (induction xs) auto

lemma unat_uint8_le: "unat (x :: uint8_t) \<le> 255"
  using unsigned_less [of x, where ?'a = nat] by simp

lemma unat_uint16_le: "unat (x :: uint16_t) \<le> 65535"
  using unsigned_less [of x, where ?'a = nat] by simp

lemma label_list_size_bound:
  "length ls \<le> 65535 \<Longrightarrow> label_list_size ls \<le> 1 + 65535 * 256"
proof -
  assume len: "length ls \<le> 65535"
  have "(\<Sum>l\<leftarrow>ls. 1 + unat (name_size l)) \<le> length ls * 256"
    by (rule sum_list_le_length_times) (use unat_uint8_le in \<open>simp add: le_Suc_eq\<close>)
  also have "\<dots> \<le> 65535 * 256"
    using len by simp
  finally show ?thesis
    by (simp add: label_list_size_def)
qed

lemma questions_size_bound:
  assumes "list_all (\<lambda>q. unat (q_labels_size q) = length (q_labels q)) qs"
  shows "(\<Sum>q\<leftarrow>qs. question_size q) \<le> length qs * (5 + 65535 * 256)"
proof (rule sum_list_le_length_times, rule ballI)
  fix q assume "q \<in> set qs"
  with assms have "unat (q_labels_size q) = length (q_labels q)"
    by (simp add: list_all_iff)
  then have "length (q_labels q) \<le> 65535"
    using unat_uint16_le [of "q_labels_size q"] by simp
  then show "question_size q \<le> 5 + 65535 * 256"
    using label_list_size_bound [of "q_labels q"] by (simp add: question_size_def)
qed

lemma rrs_size_bound:
  assumes "list_all (\<lambda>r. unat (rr_labels_size r) = length (rr_labels r)) rs"
  shows "(\<Sum>r\<leftarrow>rs. rr_size r) \<le> length rs * (11 + 65535 * 256 + 65535)"
proof (rule sum_list_le_length_times, rule ballI)
  fix r assume "r \<in> set rs"
  with assms have "unat (rr_labels_size r) = length (rr_labels r)"
    by (simp add: list_all_iff)
  then have "length (rr_labels r) \<le> 65535"
    using unat_uint16_le [of "rr_labels_size r"] by simp
  then show "rr_size r \<le> 11 + 65535 * 256 + 65535"
    using label_list_size_bound [of "rr_labels r"] unat_uint16_le [of "rr_data_size r"]
    by (simp add: rr_size_def)
qed

lemma compute_size_bound:
  assumes "counts_match m"
  shows "compute_size m < 2 ^ 43"
proof -
  from assms have q: "length (questions m) \<le> 65535"
    and r: "length (answers m @ authorities m @ additionals m) \<le> 3 * 65535"
    using unat_uint16_le [of "query_count (header m)"]
      unat_uint16_le [of "answer_count (header m)"]
      unat_uint16_le [of "authority_count (header m)"]
      unat_uint16_le [of "additional_count (header m)"]
    by (simp_all add: counts_match_def)
  have "(\<Sum>q\<leftarrow>questions m. question_size q) \<le> length (questions m) * (5 + 65535 * 256)"
    using assms by (intro questions_size_bound) (simp add: counts_match_def)
  also have "\<dots> \<le> 65535 * (5 + 65535 * 256)"
    using q by (intro mult_le_mono1)
  finally have qs: "(\<Sum>q\<leftarrow>questions m. question_size q) \<le> 65535 * (5 + 65535 * 256)" .
  have "(\<Sum>r\<leftarrow>answers m @ authorities m @ additionals m. rr_size r)
      \<le> length (answers m @ authorities m @ additionals m) * (11 + 65535 * 256 + 65535)"
    using assms by (intro rrs_size_bound) (simp add: counts_match_def)
  also have "\<dots> \<le> (3 * 65535) * (11 + 65535 * 256 + 65535)"
    using r by (intro mult_le_mono1)
  finally have rs: "(\<Sum>r\<leftarrow>answers m @ authorities m @ additionals m. rr_size r)
      \<le> (3 * 65535) * (11 + 65535 * 256 + 65535)" .
  from qs rs show ?thesis
    unfolding compute_size_def by simp
qed

text \<open>
  Claim C4. For every message whose counts are the lengths of its arrays,
  \<open>calc_message_size\<close> returns the size of the spec's formula: 12, plus the label-list
  size plus 4 for each question, plus the label-list size plus 2 + 2 + 4 + 2 plus the
  data size for each record of the three sections. The sum does not overflow
  \<^verbatim>\<open>size_t\<close>, so the equation holds between natural numbers.
\<close>

theorem calc_message_size_formula:
  assumes "counts_match m"
  shows "map_option unat (calc_message_size m) = Some (compute_size m)"
proof -
  have "compute_size m < 2 ^ 64"
    using compute_size_bound [OF assms] by simp
  then have "unat (of_nat (compute_size m) :: size_t) = compute_size m"
    by (simp add: unat_of_nat)
  then show ?thesis
    by (simp add: calc_message_size_eq [OF assms])
qed

lemma valid_message_counts_match: "valid_message m \<Longrightarrow> counts_match m"
  by (auto simp: valid_message_def counts_match_def list_all_iff valid_question_def valid_rr_def)

lemma valid_labels_sized:
  "list_all valid_label ls \<Longrightarrow> \<forall>l\<in>set ls. unat (name_size l) = length (name l)"
  by (simp add: list_all_iff valid_label_def)

lemma append_labels_octets_valid:
  "unat labels_size = length labels \<Longrightarrow> list_all valid_label labels \<Longrightarrow>
   append_labels w labels labels_size = for_each append_int8 w (wire_labels labels)"
  by (rule append_labels_octets) (simp_all add: valid_labels_sized)

lemma append_question_octets:
  "valid_question q \<Longrightarrow> append_question w q = for_each append_int8 w (wire_question q)"
  by (simp add: append_question_def wire_question_def valid_question_def
      append_labels_octets_valid append_int16_octets for_each_append)

lemma for_each_append_question:
  "list_all valid_question qs \<Longrightarrow>
   for_each append_question w qs = for_each append_int8 w (concat (map wire_question qs))"
  by (induction qs arbitrary: w) (simp_all add: append_question_octets for_each_append)

lemma append_resource_record_octets:
  "valid_rr r \<Longrightarrow> append_resource_record w r = for_each append_int8 w (wire_rr r)"
  by (simp add: append_resource_record_def wire_rr_def valid_rr_def
      append_labels_octets_valid append_int16_octets append_int32_octets for_each_append)

lemma append_resource_records_octets:
  "unat amount = length rs \<Longrightarrow> list_all valid_rr rs \<Longrightarrow>
   append_resource_records w rs amount = for_each append_int8 w (concat (map wire_rr rs))"
proof -
  have "list_all valid_rr rs \<Longrightarrow>
      for_each append_resource_record w rs = for_each append_int8 w (concat (map wire_rr rs))"
    by (induction rs arbitrary: w) (simp_all add: append_resource_record_octets for_each_append)
  then show "unat amount = length rs \<Longrightarrow> list_all valid_rr rs \<Longrightarrow> ?thesis"
    by (simp add: append_resource_records_def)
qed

lemma length_int16_octets [simp]: "length (wire_int16 v) = 2"
  by (simp add: wire_int16_def)

lemma length_int32_octets [simp]: "length (wire_int32 v) = 4"
  by (simp add: wire_int32_def)

lemma length_labels_octets:
  "\<forall>l\<in>set ls. unat (name_size l) = length (name l) \<Longrightarrow>
   length (wire_labels ls) = label_list_size ls"
  by (induction ls) (simp_all add: wire_labels_def wire_label_def label_list_size_def)

lemma length_labels_octets_valid:
  "list_all valid_label ls \<Longrightarrow> length (wire_labels ls) = label_list_size ls"
  by (rule length_labels_octets) (simp add: valid_labels_sized)

lemma length_wire_question:
  "valid_question q \<Longrightarrow> length (wire_question q) = question_size q"
  by (simp add: wire_question_def question_size_def valid_question_def
      length_labels_octets_valid)

lemma length_wire_rr:
  "valid_rr r \<Longrightarrow> length (wire_rr r) = rr_size r"
  by (simp add: wire_rr_def rr_size_def valid_rr_def length_labels_octets_valid)

lemma length_concat_wire_question:
  "list_all valid_question qs \<Longrightarrow>
   length (concat (map wire_question qs)) = (\<Sum>q\<leftarrow>qs. question_size q)"
  by (induction qs) (simp_all add: length_wire_question)

lemma length_concat_wire_rr:
  "list_all valid_rr rs \<Longrightarrow> length (concat (map wire_rr rs)) = (\<Sum>r\<leftarrow>rs. rr_size r)"
  by (induction rs) (simp_all add: length_wire_rr)

lemma length_wire_message:
  "valid_message m \<Longrightarrow> length (wire_message m) = compute_size m"
  by (simp add: wire_message_def wire_header_def compute_size_def valid_message_def
      length_concat_wire_question length_concat_wire_rr)

lemma serialize_message_octets:
  assumes "valid_message m"
  shows "serialize_message heap m =
     for_each append_int8 \<lparr>block = map heap [0..<compute_size m], index = 0\<rparr> (wire_message m)
       \<bind> (\<lambda>w. Some (block w, int (compute_size m), index w))"
proof -
  have lt: "compute_size m < 2 ^ 43"
    using assms by (intro compute_size_bound valid_message_counts_match)
  then have lt64: "compute_size m < 2 ^ 64" by simp
  have s: "sint (of_nat (compute_size m) :: size_t) = int (compute_size m)"
    using lt by (simp add: signed_of_nat signed_take_bit_int_eq_self)
  have u: "unat (of_nat (compute_size m) :: size_t) = compute_size m"
    using lt64 by (simp add: unat_of_nat)
  show ?thesis
    using assms
    by (simp add: serialize_message_def calc_message_size_eq [OF valid_message_counts_match]
        s u wire_message_def wire_header_def for_each_append append_int16_octets
        for_each_append_question append_resource_records_octets valid_message_def)
qed

lemma valid_example_message: "valid_message example_message"
  by (simp add: valid_message_def example_message_def valid_question_def valid_label_def)

lemma wire_example_message: "wire_message example_message = example_octets"
  by (simp add: wire_message_def wire_header_def wire_question_def wire_labels_def
      wire_label_def wire_int16_def example_message_def example_octets_def)

lemma compute_size_example_message: "compute_size example_message = 29"
  by (simp add: compute_size_def question_size_def label_list_size_def example_message_def)

theorem calc_message_size_formula_witness:
  "counts_match example_message
   \<and> map_option unat (calc_message_size example_message) = Some 29"
  using calc_message_size_formula [of example_message]
  by (simp add: valid_message_counts_match [OF valid_example_message]
      compute_size_example_message)

section \<open>Properties of the encoder\<close>

lemma serialize_message_wire:
  assumes "valid_message m" and "compute_size m < 2 ^ 32"
  shows "serialize_message heap m
     = Some (wire_message m, int (compute_size m), of_nat (compute_size m))"
proof -
  have len: "length (wire_message m) = compute_size m"
    using assms(1) by (rule length_wire_message)
  let ?w = "\<lparr>block = map heap [0..<compute_size m], index = 0\<rparr>"
  have "for_each append_int8 ?w (wire_message m) =
     Some \<lparr>block = take (unat (index ?w)) (block ?w) @ wire_message m
                     @ drop (unat (index ?w) + length (wire_message m)) (block ?w),
           index = index ?w + of_nat (length (wire_message m))\<rparr>"
    using assms(2) by (intro write_octets) (simp_all add: len)
  then show ?thesis
    by (simp add: serialize_message_octets [OF assms(1)] len)
qed

lemma valid_big_label: "valid_label big_label"
  by (simp add: valid_label_def big_label_def)

lemma valid_big_question: "valid_question big_question"
  by (simp add: valid_question_def big_question_def list_all_iff valid_big_label)

lemma valid_short_label: "valid_label short_label"
  by (simp add: valid_label_def short_label_def)

lemma valid_last_question: "valid_question last_question"
  by (simp add: valid_question_def last_question_def list_all_iff valid_big_label
      valid_short_label)

lemma valid_huge_message: "valid_message huge_message"
  by (simp add: valid_message_def huge_message_def list_all_iff valid_big_question valid_last_question)

lemma question_size_big: "question_size big_question = 16776965"
  by (simp add: question_size_def big_question_def label_list_size_def big_label_def sum_list_replicate)

lemma question_size_last: "question_size last_question = 64246"
  by (simp add: question_size_def last_question_def label_list_size_def big_label_def
      short_label_def sum_list_replicate)

lemma compute_size_huge: "compute_size huge_message = 4294967298"
  by (simp add: compute_size_def huge_message_def question_size_big question_size_last sum_list_replicate)

lemma write_octets_wrapped:
  "2 ^ 32 \<le> length (block w) \<Longrightarrow>
   \<exists>w'. for_each append_int8 w bs = Some w' \<and> index w' = index w + of_nat (length bs)
     \<and> length (block w') = length (block w)"
proof (induction bs arbitrary: w)
  case Nil
  then show ?case by simp
next
  case (Cons b bs)
  have lt: "unat (index w) < length (block w)"
    using unsigned_less [of "index w", where ?'a = nat] Cons.prems by simp
  let ?w1 = "\<lparr>block = (block w)[unat (index w) := b], index = index w + 1\<rparr>"
  have "\<exists>w'. for_each append_int8 ?w1 bs = Some w' \<and> index w' = index ?w1 + of_nat (length bs)
     \<and> length (block w') = length (block ?w1)"
    using Cons.prems by (intro Cons.IH) simp
  then show ?case
    using lt by (auto simp: append_int8_Some add.assoc)
qed

lemma wire_huge_split:
  "\<exists>pre. wire_message huge_message = pre @ [0xFF, 0xFF]"
  by (simp add: wire_message_def huge_message_def wire_question_def last_question_def wire_int16_def)

lemma serialize_huge:
  "\<exists>blk. serialize_message heap huge_message = Some (blk, 4294967298, 2)
     \<and> 2 \<le> length blk \<and> blk ! 0 = 0xFF \<and> blk ! 1 = 0xFF"
proof -
  obtain pre where pre: "wire_message huge_message = pre @ [0xFF, 0xFF]"
    using wire_huge_split by blast
  have "length (wire_message huge_message) = 4294967298"
    using length_wire_message [OF valid_huge_message] compute_size_huge by simp
  with pre have len: "length pre = 4294967296" by simp
  let ?w = "\<lparr>block = map heap [0..<compute_size huge_message], index = 0\<rparr>"
  have "2 ^ 32 \<le> length (block ?w)"
    by (simp add: compute_size_huge)
  from write_octets_wrapped [OF this, of pre]
  obtain w1 where w1: "for_each append_int8 ?w pre = Some w1"
    "index w1 = of_nat (length pre)" "length (block w1) = 4294967298"
    by (auto simp: compute_size_huge)
  have i1: "index w1 = 0"
    by (simp add: w1(2) len)
  have "for_each append_int8 w1 [0xFF, 0xFF]
     = Some \<lparr>block = (block w1)[0 := 0xFF, 1 := 0xFF], index = 2\<rparr>"
    by (simp add: append_int8_def i1 w1(3))
  then have "for_each append_int8 ?w (wire_message huge_message)
     = Some \<lparr>block = (block w1)[0 := 0xFF, 1 := 0xFF], index = 2\<rparr>"
    by (simp add: pre for_each_append w1(1))
  then have "serialize_message heap huge_message
     = Some ((block w1)[0 := 0xFF, 1 := 0xFF], 4294967298, 2)"
    by (simp add: serialize_message_octets [OF valid_huge_message] compute_size_huge)
  then show ?thesis
    by (simp add: w1(3) nth_list_update)
qed

text \<open>
  Claim C5, as amended. For every structurally valid message whose size is below
  \<open>2 ^ 32\<close> octets, \<open>serialize_message\<close> allocates a block of exactly the octets that
  \<open>calc_message_size\<close> computes, stores that size through \<^verbatim>\<open>buffer_size\<close>, and ends with
  the index at that size; every cell of the block has been written, the block being
  the wire format of the message whatever it held before.
\<close>

theorem serialize_message_length:
  assumes "valid_message m" and "compute_size m < 2 ^ 32"
  shows "\<exists>size buf len idx.
      calc_message_size m = Some size
      \<and> serialize_message heap m = Some (buf, len, idx)
      \<and> length buf = unat size \<and> len = uint size \<and> unat idx = unat size
      \<and> buf = wire_message m"
proof -
  have lt: "compute_size m < 2 ^ 64"
    using assms(2) by simp
  have "calc_message_size m = Some (of_nat (compute_size m))"
    using assms(1) by (intro calc_message_size_eq valid_message_counts_match)
  moreover have "unat (of_nat (compute_size m) :: size_t) = compute_size m"
    using lt by (simp add: unat_of_nat)
  moreover have "uint (of_nat (compute_size m) :: size_t) = int (compute_size m)"
    using lt by (simp add: uint_nat unat_of_nat del: of_nat_unat)
  moreover have "unat (of_nat (compute_size m) :: c_uint) = compute_size m"
    using assms(2) by (simp add: unat_of_nat)
  ultimately show ?thesis
    using serialize_message_wire [OF assms, of heap] length_wire_message [OF assms(1)]
    by simp
qed

theorem serialize_message_length_witness:
  "valid_message example_message \<and> compute_size example_message < 2 ^ 32
   \<and> calc_message_size example_message = Some 29
   \<and> map_option (\<lambda>(buf, len, idx). (buf, len, unat idx))
         (serialize_message zero_heap example_message) = Some (example_octets, 29, 29)"
  using serialize_message_length [of example_message zero_heap]
  by (auto simp: valid_example_message compute_size_example_message wire_example_message
      calc_message_size_eq [OF valid_message_counts_match [OF valid_example_message]])

text \<open>
  The claim as it stands, for every structurally valid message, fails: the index is
  an \<^verbatim>\<open>unsigned int\<close>. For the message of \<open>2 ^ 32 + 2\<close> octets the size is computed and
  stored as 4294967298, and the index ends at 2.
\<close>

theorem serialize_message_index_counterexample:
  "valid_message huge_message
   \<and> map_option unat (calc_message_size huge_message) = Some 4294967298
   \<and> map_option snd (serialize_message zero_heap huge_message) = Some (4294967298, 2)"
proof -
  have "unat (of_nat (compute_size huge_message) :: size_t) = 4294967298"
    by (simp add: compute_size_huge unat_of_nat)
  then have "map_option unat (calc_message_size huge_message) = Some 4294967298"
    by (simp add: calc_message_size_eq [OF valid_message_counts_match [OF valid_huge_message]])
  then show ?thesis
    using serialize_huge [of zero_heap] by (auto simp: valid_huge_message)
qed

section \<open>Properties of the decoder on encoded messages\<close>

lemma pop_int8_SCons:
  "1 \<le> n \<Longrightarrow>
   pop_int8 \<lparr>buffer = b ## s, buffer_size = n\<rparr> = (b, \<lparr>buffer = s, buffer_size = n - 1\<rparr>)"
  by (simp add: pop_int8_def Let_def)

lemma pop_octets_shift:
  "int (length bs) \<le> n \<Longrightarrow>
   pop_octets (length bs) \<lparr>buffer = bs @- s, buffer_size = n\<rparr>
     = (bs, \<lparr>buffer = s, buffer_size = n - int (length bs)\<rparr>)"
  by (induction bs arbitrary: n) (simp_all add: pop_int8_SCons algebra_simps)

lemma int16_of_octets:
  "push_bit 8 (ucast (ucast (drop_bit 8 v) :: uint8_t)) OR ucast (ucast v :: uint8_t) = v"
  for v :: uint16_t
  by (rule bit_word_eqI) (auto simp: bit_simps)

lemma pop_int16_shift:
  "2 \<le> n \<Longrightarrow>
   pop_int16 \<lparr>buffer = wire_int16 v @- s, buffer_size = n\<rparr>
     = (v, \<lparr>buffer = s, buffer_size = n - 2\<rparr>)"
  by (simp add: pop_int16_def wire_int16_def pop_int8_SCons ucast_int_or_16 int16_of_octets)

lemma int32_of_octets:
  "push_bit 16 (ucast (ucast (drop_bit 16 v) :: uint16_t)) OR ucast (ucast v :: uint16_t) = v"
  for v :: uint32_t
  by (rule bit_word_eqI) (auto simp: bit_simps)

lemma int32_octets_split:
  "wire_int32 v = wire_int16 (ucast (drop_bit 16 v)) @ wire_int16 (ucast v)"
  by (simp add: wire_int32_def wire_int16_def ucast_drop_bit_8_16
        ucast_ucast_16_8 ucast_drop_bit_8_ucast ucast_ucast_drop_16_8)

lemma pop_int32_shift:
  "4 \<le> n \<Longrightarrow>
   pop_int32 \<lparr>buffer = wire_int32 v @- s, buffer_size = n\<rparr>
     = (v, \<lparr>buffer = s, buffer_size = n - 4\<rparr>)"
  by (simp add: pop_int32_def int32_octets_split pop_int16_shift ucast_int_or_32 int32_of_octets)

lemma unat_amount_Suc: "unat a + 1 < 2 ^ 32 \<Longrightarrow> a + 1 \<noteq> 0" for a :: c_uint
  by (metis add_eq_0_iff_both_eq_0 unat_eq_zero unat_index_Suc zero_neq_one)

lemma interpret_labels_loop_step:
  assumes "name_size l \<noteq> 0" and "unat (name_size l) = length (name l)"
    and "1 + int (length (name l)) \<le> n"
  shows "interpret_labels_loop \<lparr>buffer = wire_label l @- s, buffer_size = n\<rparr> acc amount
     = interpret_labels_loop \<lparr>buffer = s, buffer_size = n - 1 - int (length (name l))\<rparr>
         (if amount = 0 then [l] else acc @ [l]) (amount + 1)"
proof -
  have lbl: "\<lparr>name_size = name_size l, name = name l\<rparr> = l"
    by simp
  have p8: "pop_int8 \<lparr>buffer = name_size l ## name l @- s, buffer_size = n\<rparr>
      = (name_size l, \<lparr>buffer = name l @- s, buffer_size = n - 1\<rparr>)"
    using assms(3) by (intro pop_int8_SCons) simp
  have po: "pop_octets (unat (name_size l)) \<lparr>buffer = name l @- s, buffer_size = n - 1\<rparr>
      = (name l, \<lparr>buffer = s, buffer_size = n - 1 - int (length (name l))\<rparr>)"
    unfolding assms(2) using assms(3) by (intro pop_octets_shift) simp
  show ?thesis
    using assms(1)
    by (subst interpret_labels_loop.simps)
      (simp add: wire_label_def p8 po word_greater_zero_iff lbl)
qed

lemma interpret_labels_loop_shift:
  "list_all valid_label ls \<Longrightarrow>
   int (length (concat (map wire_label ls))) + 1 \<le> n \<Longrightarrow>
   amount = 0 \<longrightarrow> acc = [] \<Longrightarrow>
   unat amount + length ls < 2 ^ 32 \<Longrightarrow>
   interpret_labels_loop \<lparr>buffer = concat (map wire_label ls) @- 0 ## s, buffer_size = n\<rparr> acc amount
     = (acc @ ls, amount + of_nat (length ls),
        \<lparr>buffer = s, buffer_size = n - int (length (concat (map wire_label ls))) - 1\<rparr>)"
proof (induction ls arbitrary: acc amount n)
  case Nil
  then show ?case
    by (subst interpret_labels_loop.simps) (simp add: pop_int8_SCons)
next
  case (Cons l ls)
  from Cons.prems(1) have vl: "valid_label l" and ls: "list_all valid_label ls"
    by simp_all
  from vl have l: "name_size l \<noteq> 0" "unat (name_size l) = length (name l)"
    by (auto simp: valid_label_def)
  from Cons.prems(4) have a1: "amount + 1 \<noteq> 0" and u1: "unat (amount + 1) = unat amount + 1"
    by (simp_all add: unat_amount_Suc unat_index_Suc)
  let ?acc = "if amount = 0 then [l] else acc @ [l]"
  have acc: "?acc = acc @ [l]"
    using Cons.prems(3) by simp
  have len: "length (wire_label l) = 1 + length (name l)"
    by (simp add: wire_label_def)
  have "interpret_labels_loop
      \<lparr>buffer = concat (map wire_label (l # ls)) @- 0 ## s, buffer_size = n\<rparr> acc amount
     = interpret_labels_loop
      \<lparr>buffer = concat (map wire_label ls) @- 0 ## s,
        buffer_size = n - 1 - int (length (name l))\<rparr> ?acc (amount + 1)"
    using interpret_labels_loop_step [OF l, of n "concat (map wire_label ls) @- 0 ## s" acc amount]
      Cons.prems(2) by (simp add: len)
  also have "\<dots> = (?acc @ ls, amount + 1 + of_nat (length ls),
        \<lparr>buffer = s, buffer_size = n - 1 - int (length (name l)) - int (length (concat (map wire_label ls))) - 1\<rparr>)"
    using Cons.prems(2,4) ls a1 u1
    by (intro Cons.IH) (simp_all add: len)
  finally show ?case
    by (simp add: acc len add.assoc)
qed

lemma interpret_labels_shift:
  assumes "list_all valid_label ls" and "unat labels_size = length ls"
    and "int (length (wire_labels ls)) \<le> n"
  shows "interpret_labels \<lparr>buffer = wire_labels ls @- s, buffer_size = n\<rparr>
     = (ls, labels_size, \<lparr>buffer = s, buffer_size = n - int (length (wire_labels ls))\<rparr>)"
proof -
  have len: "length ls < 2 ^ 16"
    using unsigned_less [of labels_size, where ?'a = nat] assms(2) by simp
  then have "unat (0 :: c_uint) + length ls < 2 ^ 32"
    by simp
  then have loop: "interpret_labels_loop
       \<lparr>buffer = concat (map wire_label ls) @- 0 ## s, buffer_size = n\<rparr> [] 0
     = ([] @ ls, 0 + of_nat (length ls),
        \<lparr>buffer = s, buffer_size = n - int (length (concat (map wire_label ls))) - 1\<rparr>)"
    using assms(1,3) by (intro interpret_labels_loop_shift) (simp_all add: wire_labels_def)
  have "(ucast (of_nat (length ls) :: c_uint) :: uint16_t) = of_nat (length ls)"
    by (rule bit_word_eqI) (auto simp: bit_simps)
  also have "\<dots> = labels_size"
    by (simp flip: assms(2))
  finally show ?thesis
    by (simp add: interpret_labels_def wire_labels_def loop)
qed

lemma interpret_question_entry_shift:
  assumes "valid_question q" and "int (length (wire_question q)) \<le> n"
  shows "interpret_question_entry \<lparr>buffer = wire_question q @- s, buffer_size = n\<rparr>
     = (q, \<lparr>buffer = s, buffer_size = n - int (length (wire_question q))\<rparr>)"
proof -
  from assms(1) have v: "list_all valid_label (q_labels q)"
    "unat (q_labels_size q) = length (q_labels q)"
    by (simp_all add: valid_question_def)
  have l: "interpret_labels \<lparr>buffer = wire_labels (q_labels q) @- s', buffer_size = n\<rparr>
      = (q_labels q, q_labels_size q,
         \<lparr>buffer = s', buffer_size = n - int (length (wire_labels (q_labels q)))\<rparr>)" for s'
    using v assms(2) by (intro interpret_labels_shift) (simp_all add: wire_question_def)
  show ?thesis
    using assms(2)
    by (simp add: interpret_question_entry_def wire_question_def l pop_int16_shift)
qed

lemma interpret_question_loop_shift:
  "list_all valid_question qs \<Longrightarrow>
   int (length (concat (map wire_question qs))) \<le> n \<Longrightarrow>
   interpret_question_loop (length qs)
       \<lparr>buffer = concat (map wire_question qs) @- s, buffer_size = n\<rparr>
     = (qs, \<lparr>buffer = s, buffer_size = n - int (length (concat (map wire_question qs)))\<rparr>)"
proof (induction qs arbitrary: n)
  case Nil
  then show ?case by simp
next
  case (Cons q qs)
  then show ?case
    by (simp add: interpret_question_entry_shift algebra_simps)
qed

lemma interpret_rr_entry_shift:
  assumes "valid_rr r" and "int (length (wire_rr r)) \<le> n"
  shows "interpret_rr_entry \<lparr>buffer = wire_rr r @- s, buffer_size = n\<rparr>
     = (r, \<lparr>buffer = s, buffer_size = n - int (length (wire_rr r))\<rparr>)"
proof -
  from assms(1) have v: "list_all valid_label (rr_labels r)"
    "unat (rr_labels_size r) = length (rr_labels r)"
    and d: "unat (rr_data_size r) = length (rr_data r)"
    by (simp_all add: valid_rr_def)
  have l: "interpret_labels \<lparr>buffer = wire_labels (rr_labels r) @- s', buffer_size = n\<rparr>
      = (rr_labels r, rr_labels_size r,
         \<lparr>buffer = s', buffer_size = n - int (length (wire_labels (rr_labels r)))\<rparr>)" for s'
    using v assms(2) by (intro interpret_labels_shift) (simp_all add: wire_rr_def)
  have po: "pop_octets (unat (rr_data_size r)) \<lparr>buffer = rr_data r @- s, buffer_size = k\<rparr>
     = (rr_data r, \<lparr>buffer = s, buffer_size = k - int (length (rr_data r))\<rparr>)"
    if "int (length (rr_data r)) \<le> k" for k
    unfolding d using that by (rule pop_octets_shift)
  show ?thesis
    using assms(2)
    by (simp add: interpret_rr_entry_def wire_rr_def l pop_int16_shift pop_int32_shift po)
qed

lemma interpret_rr_shift:
  assumes "unat amount = length rs" and "list_all valid_rr rs"
    and "int (length (concat (map wire_rr rs))) \<le> n"
  shows "interpret_rr amount \<lparr>buffer = concat (map wire_rr rs) @- s, buffer_size = n\<rparr>
     = (rs, \<lparr>buffer = s, buffer_size = n - int (length (concat (map wire_rr rs)))\<rparr>)"
proof -
  have "list_all valid_rr rs \<Longrightarrow> int (length (concat (map wire_rr rs))) \<le> n \<Longrightarrow>
    interpret_rr_loop (length rs) \<lparr>buffer = concat (map wire_rr rs) @- s, buffer_size = n\<rparr>
     = (rs, \<lparr>buffer = s, buffer_size = n - int (length (concat (map wire_rr rs)))\<rparr>)" for n
  proof (induction rs arbitrary: n)
    case Nil
    then show ?case by simp
  next
    case (Cons r rs)
    then show ?case
      by (simp add: interpret_rr_entry_shift algebra_simps)
  qed
  with assms show ?thesis
    by (simp add: interpret_rr_def)
qed

lemma interpret_message_shift:
  assumes "valid_message m" and "int (length (wire_message m)) \<le> n"
  shows "interpret_message \<lparr>buffer = wire_message m @- s, buffer_size = n\<rparr>
     = (m, \<lparr>buffer = s, buffer_size = n - int (length (wire_message m))\<rparr>)"
proof -
  from assms(1) have c: "unat (query_count (header m)) = length (questions m)"
    "unat (answer_count (header m)) = length (answers m)"
    "unat (authority_count (header m)) = length (authorities m)"
    "unat (additional_count (header m)) = length (additionals m)"
    and v: "list_all valid_question (questions m)" "list_all valid_rr (answers m)"
    "list_all valid_rr (authorities m)" "list_all valid_rr (additionals m)"
    by (simp_all add: valid_message_def)
  have q: "interpret_question_loop (unat (query_count (header m)))
       \<lparr>buffer = concat (map wire_question (questions m)) @- s', buffer_size = k\<rparr>
     = (questions m, \<lparr>buffer = s', buffer_size = k - int (length (concat (map wire_question (questions m))))\<rparr>)"
    if "int (length (concat (map wire_question (questions m)))) \<le> k" for s' k
    unfolding c using v(1) that by (rule interpret_question_loop_shift)
  show ?thesis
    using assms(2)
    by (simp add: interpret_message_def wire_message_def wire_header_def pop_int16_shift q
        interpret_rr_shift [OF c(2) v(2)] interpret_rr_shift [OF c(3) v(3)]
        interpret_rr_shift [OF c(4) v(4)])
qed

lemma interpret_question_wire:
  assumes "valid_message m"
  shows "interpret_question (wire_message m @- rest) (int (length (wire_message m))) error_flag
     = (m, error_flag)"
proof -
  have "interpret_message
      \<lparr>buffer = wire_message m @- rest, buffer_size = int (length (wire_message m))\<rparr>
     = (m, \<lparr>buffer = rest,
            buffer_size = int (length (wire_message m)) - int (length (wire_message m))\<rparr>)"
    using assms by (intro interpret_message_shift) simp_all
  then show ?thesis
    by (simp add: interpret_question_def)
qed

lemma interpret_question_id:
  assumes "2 \<le> length blk" and "2 \<le> n"
  shows "id_field (header (fst (interpret_question (blk @- rest) n ef)))
     = push_bit 8 (ucast (blk ! 0)) OR ucast (blk ! 1)"
proof -
  from assms(1) obtain b0 b1 bs where blk: "blk = b0 # b1 # bs"
    by (cases blk; cases "tl blk") auto
  show ?thesis
    using assms(2)
    by (simp add: blk interpret_question_def interpret_message_def split_beta pop_int16_def
        pop_int8_SCons ucast_int_or_16)
qed

text \<open>
  Claim C1, as amended. For every structurally valid message whose size is below
  \<open>2 ^ 32\<close> octets, decoding the buffer that encoding produces gives the message
  back, and leaves the malformed flag as it was before the call.
\<close>

theorem round_trip_valid:
  assumes "valid_message m" and "compute_size m < 2 ^ 32"
  shows "round_trip heap rest error_flag m = Some (m, error_flag)"
  using serialize_message_wire [OF assms, of heap]
    interpret_question_wire [OF assms(1), of rest error_flag]
  by (simp add: round_trip_def length_wire_message [OF assms(1)])

theorem round_trip_valid_witness:
  "valid_message example_message \<and> compute_size example_message < 2 ^ 32
   \<and> round_trip zero_heap (sconst 0) 0 example_message = Some (example_message, 0)"
  using round_trip_valid [of example_message zero_heap "sconst 0" 0]
  by (simp add: valid_example_message compute_size_example_message)

text \<open>
  The claim as it stands, for every structurally valid message, fails. For the
  message of \<open>2 ^ 32 + 2\<close> octets the index wraps around after \<open>2 ^ 32\<close> writes, the
  two octets of the last class are written over the identifier at the start of the
  block, and decoding the block gives the identifier \<open>0xFFFF\<close>, not 0.
\<close>

theorem round_trip_counterexample:
  "valid_message huge_message
   \<and> round_trip zero_heap (sconst 0) 0 huge_message \<noteq> Some (huge_message, 0)"
proof -
  obtain blk where s: "serialize_message zero_heap huge_message = Some (blk, 4294967298, 2)"
    and blk: "2 \<le> length blk" "blk ! 0 = 0xFF" "blk ! 1 = 0xFF"
    using serialize_huge by blast
  have "id_field (header (fst (interpret_question (blk @- sconst 0) 4294967298 0)))
     = push_bit 8 (ucast (blk ! 0)) OR ucast (blk ! 1)"
    using blk(1) by (intro interpret_question_id) simp_all
  also have "\<dots> = 0xFFFF"
    by (simp only: blk) simp
  finally have "id_field (header (fst (interpret_question (blk @- sconst 0) 4294967298 0)))
     \<noteq> id_field (header huge_message)"
    by (simp add: huge_message_def)
  then have "interpret_question (blk @- sconst 0) 4294967298 0 \<noteq> (huge_message, 0)"
    by auto
  then show ?thesis
    by (simp add: round_trip_def s valid_huge_message)
qed

text \<open>
  Claim C7. Encoding the message of the concrete scenario gives exactly its 29
  octets, and decoding these octets gives the message back and leaves the malformed
  flag as it was.
\<close>

theorem example_scenario:
  "serialize_message heap example_message = Some (example_octets, 29, 29)
   \<and> length example_octets = 29
   \<and> interpret_question (example_octets @- rest) 29 error_flag
       = (example_message, error_flag)"
  using serialize_message_wire [OF valid_example_message, of heap]
    interpret_question_wire [OF valid_example_message, of rest error_flag]
  by (simp add: wire_example_message compute_size_example_message)
    (simp add: example_octets_def)

section \<open>Properties of the decoder on arbitrary buffers\<close>

lemma interpret_labels_loop_consumed:
  "1 + int (\<Sum>l\<leftarrow>fst (interpret_labels_loop c acc amount). 1 + unat (name_size l))
     - int (\<Sum>l\<leftarrow>acc. 1 + unat (name_size l))
   \<le> buffer_size c - buffer_size (snd (snd (interpret_labels_loop c acc amount)))"
proof (induction c acc amount rule: interpret_labels_loop.induct)
  case (1 c labels amount)
  let ?nx = "fst (pop_int8 c)" and ?c1 = "snd (pop_int8 c)"
  show ?case
  proof (cases "0 < ?nx")
    case False
    then show ?thesis
      by (subst (1 2) interpret_labels_loop.simps) (simp add: split_beta)
  next
    case True
    let ?octets = "fst (pop_octets (unat ?nx) ?c1)" and ?c2 = "snd (pop_octets (unat ?nx) ?c1)"
    let ?label = "\<lparr>name_size = ?nx, name = ?octets\<rparr>"
    let ?labels' = "if amount = 0 then [?label] else labels @ [?label]"
    have IH: "1 + int (\<Sum>l\<leftarrow>fst (interpret_labels_loop ?c2 ?labels' (amount + 1)). 1 + unat (name_size l))
         - int (\<Sum>l\<leftarrow>?labels'. 1 + unat (name_size l))
       \<le> buffer_size ?c2 - buffer_size (snd (snd (interpret_labels_loop ?c2 ?labels' (amount + 1))))"
      using True
      by (intro "1.IH" [of "pop_int8 c" ?nx ?c1 "pop_octets (unat ?nx) ?c1" ?octets ?c2 ?label])
        simp_all
    have unfold: "interpret_labels_loop c labels amount
        = interpret_labels_loop ?c2 ?labels' (amount + 1)"
      using True by (subst interpret_labels_loop.simps) (simp add: split_beta Let_def)
    have "int (\<Sum>l\<leftarrow>?labels'. 1 + unat (name_size l))
        \<le> int (\<Sum>l\<leftarrow>labels. 1 + unat (name_size l)) + 1 + int (unat ?nx)"
      by simp
    moreover have "buffer_size ?c2 = buffer_size c - 1 - int (unat ?nx)"
      by simp
    ultimately show ?thesis
      using IH unfolding unfold by linarith
  qed
qed

lemma interpret_labels_consumed:
  "int (label_list_size (fst (interpret_labels c)))
     \<le> buffer_size c - buffer_size (snd (snd (interpret_labels c)))"
  using interpret_labels_loop_consumed [of c "[]" 0]
  by (simp add: interpret_labels_def split_beta label_list_size_def)

lemma interpret_question_entry_consumed:
  "int (question_size (fst (interpret_question_entry c)))
     \<le> buffer_size c - buffer_size (snd (interpret_question_entry c))"
  using interpret_labels_consumed [of c]
  by (simp add: interpret_question_entry_def split_beta question_size_def)

lemma interpret_question_loop_consumed:
  "int (\<Sum>q\<leftarrow>fst (interpret_question_loop n c). question_size q)
     \<le> buffer_size c - buffer_size (snd (interpret_question_loop n c))"
proof (induction n arbitrary: c)
  case 0
  then show ?case by simp
next
  case (Suc n)
  show ?case
    using interpret_question_entry_consumed [of c]
      Suc.IH [of "snd (interpret_question_entry c)"]
    by (simp add: split_beta)
qed

lemma interpret_rr_entry_consumed:
  "int (rr_size (fst (interpret_rr_entry c)))
     \<le> buffer_size c - buffer_size (snd (interpret_rr_entry c))"
  using interpret_labels_consumed [of c]
  by (simp add: interpret_rr_entry_def split_beta rr_size_def)

lemma interpret_rr_loop_consumed:
  "int (\<Sum>r\<leftarrow>fst (interpret_rr_loop n c). rr_size r)
     \<le> buffer_size c - buffer_size (snd (interpret_rr_loop n c))"
proof (induction n arbitrary: c)
  case 0
  then show ?case by simp
next
  case (Suc n)
  show ?case
    using interpret_rr_entry_consumed [of c] Suc.IH [of "snd (interpret_rr_entry c)"]
    by (simp add: split_beta)
qed

lemma interpret_rr_consumed:
  "int (\<Sum>r\<leftarrow>fst (interpret_rr amount c). rr_size r)
     \<le> buffer_size c - buffer_size (snd (interpret_rr amount c))"
  using interpret_rr_loop_consumed [of "unat amount" c]
  by (simp add: interpret_rr_def)

lemma interpret_message_consumed:
  "int (compute_size (fst (interpret_message c)))
     \<le> buffer_size c - buffer_size (snd (interpret_message c))"
proof -
  let ?c6 = "snd (pop_int16 (snd (pop_int16 (snd (pop_int16 (snd (pop_int16 (snd (pop_int16 (snd (pop_int16 c)))))))))))"
  let ?m = "fst (interpret_message c)"
  let ?q = "interpret_question_loop (unat (query_count (header ?m))) ?c6"
  let ?an = "interpret_rr (answer_count (header ?m)) (snd ?q)"
  let ?au = "interpret_rr (authority_count (header ?m)) (snd ?an)"
  let ?ad = "interpret_rr (additional_count (header ?m)) (snd ?au)"
  have m: "questions ?m = fst ?q" "answers ?m = fst ?an" "authorities ?m = fst ?au"
    "additionals ?m = fst ?ad" "snd (interpret_message c) = snd ?ad"
    by (simp_all add: interpret_message_def split_beta)
  have "buffer_size ?c6 = buffer_size c - 12"
    by simp
  moreover note interpret_question_loop_consumed [of "unat (query_count (header ?m))" ?c6]
    interpret_rr_consumed [of "answer_count (header ?m)" "snd ?q"]
    interpret_rr_consumed [of "authority_count (header ?m)" "snd ?an"]
    interpret_rr_consumed [of "additional_count (header ?m)" "snd ?au"]
  ultimately show ?thesis
    unfolding compute_size_def m by simp
qed

lemma interpret_labels_loop_exhausted:
  "buffer_size c \<le> 0 \<Longrightarrow>
   interpret_labels_loop c acc amount = (acc, amount, c\<lparr>buffer_size := buffer_size c - 1\<rparr>)"
  by (subst interpret_labels_loop.simps) (simp add: pop_int8_def Let_def)

lemma interpret_lone_header:
  "interpret_question (lone_header @- rest) 12 error_flag
     = (\<lparr>header = \<lparr>id_field = 0, status_flags = 0, query_count = 1, answer_count = 0,
                 authority_count = 0, additional_count = 0\<rparr>,
         questions = [\<lparr>q_labels = [], q_labels_size = 0, q_type = 0, q_class = 0\<rparr>],
         answers = [], authorities = [], additionals = []\<rparr>, 1)"
  by (simp add: interpret_question_def interpret_message_def lone_header_def pop_int16_def
      pop_int8_SCons interpret_question_entry_def interpret_labels_def
      interpret_labels_loop_exhausted interpret_rr_def pop_int8_def Let_def)

subsection \<open>Reads inside the counter depend only on the octets it covers\<close>

lemma pop_int8_agree:
  assumes "agree d c c'" and "0 \<le> buffer_size (snd (pop_int8 c))"
  shows "fst (pop_int8 c') = fst (pop_int8 c) \<and> agree d (snd (pop_int8 c)) (snd (pop_int8 c'))"
proof -
  from assms(2) have pos: "1 \<le> buffer_size c"
    by simp
  then obtain k where k: "nat (buffer_size c) = Suc k" "nat (buffer_size c - 1) = k"
    by (metis Suc_nat_eq_nat_zadd1 add.commute diff_ge_0_iff_ge diff_add_cancel)
  from assms(1) have st: "stake (Suc k) (buffer c) = stake (Suc k) (buffer c')"
    and d: "0 \<le> d" "buffer_size c' = buffer_size c + d"
    by (simp_all add: agree_def k)
  from st have "shd (buffer c) = shd (buffer c')"
    and "stake k (stl (buffer c)) = stake k (stl (buffer c'))"
    by simp_all
  then show ?thesis
    using pos d by (simp add: pop_int8_def Let_def agree_def k)
qed

lemma pop_int16_agree:
  assumes "agree d c c'" and "0 \<le> buffer_size (snd (pop_int16 c))"
  shows "fst (pop_int16 c') = fst (pop_int16 c) \<and> agree d (snd (pop_int16 c)) (snd (pop_int16 c'))"
proof -
  have 1: "fst (pop_int8 c') = fst (pop_int8 c) \<and> agree d (snd (pop_int8 c)) (snd (pop_int8 c'))"
    using assms by (intro pop_int8_agree) (simp_all add: pop_int16_def split_beta)
  then have "fst (pop_int8 (snd (pop_int8 c'))) = fst (pop_int8 (snd (pop_int8 c)))
      \<and> agree d (snd (pop_int8 (snd (pop_int8 c)))) (snd (pop_int8 (snd (pop_int8 c'))))"
    using assms(2) by (intro pop_int8_agree) (simp_all add: pop_int16_def split_beta)
  with 1 show ?thesis
    by (simp add: pop_int16_def split_beta)
qed

lemma pop_int32_agree:
  assumes "agree d c c'" and "0 \<le> buffer_size (snd (pop_int32 c))"
  shows "fst (pop_int32 c') = fst (pop_int32 c) \<and> agree d (snd (pop_int32 c)) (snd (pop_int32 c'))"
proof -
  have 1: "fst (pop_int16 c') = fst (pop_int16 c) \<and> agree d (snd (pop_int16 c)) (snd (pop_int16 c'))"
    using assms by (intro pop_int16_agree) (simp_all add: pop_int32_def split_beta)
  then have "fst (pop_int16 (snd (pop_int16 c'))) = fst (pop_int16 (snd (pop_int16 c)))
      \<and> agree d (snd (pop_int16 (snd (pop_int16 c)))) (snd (pop_int16 (snd (pop_int16 c'))))"
    using assms(2) by (intro pop_int16_agree) (simp_all add: pop_int32_def split_beta)
  with 1 show ?thesis
    by (simp add: pop_int32_def split_beta)
qed

lemma pop_octets_agree:
  "agree d c c' \<Longrightarrow> 0 \<le> buffer_size (snd (pop_octets n c)) \<Longrightarrow>
   fst (pop_octets n c') = fst (pop_octets n c)
   \<and> agree d (snd (pop_octets n c)) (snd (pop_octets n c'))"
proof (induction n arbitrary: c c')
  case 0
  then show ?case by simp
next
  case (Suc n)
  have 1: "fst (pop_int8 c') = fst (pop_int8 c) \<and> agree d (snd (pop_int8 c)) (snd (pop_int8 c'))"
    using Suc.prems by (intro pop_int8_agree) (simp_all add: split_beta)
  then have "fst (pop_octets n (snd (pop_int8 c'))) = fst (pop_octets n (snd (pop_int8 c)))
   \<and> agree d (snd (pop_octets n (snd (pop_int8 c)))) (snd (pop_octets n (snd (pop_int8 c'))))"
    using Suc.prems(2) by (intro Suc.IH) (simp_all add: split_beta)
  with 1 show ?case
    by (simp add: split_beta)
qed

lemma interpret_labels_loop_mono:
  "buffer_size (snd (snd (interpret_labels_loop c acc amount))) \<le> buffer_size c"
proof (induction c acc amount rule: interpret_labels_loop.induct)
  case (1 c labels amount)
  let ?nx = "fst (pop_int8 c)" and ?c1 = "snd (pop_int8 c)"
  show ?case
  proof (cases "0 < ?nx")
    case False
    then show ?thesis
      by (subst interpret_labels_loop.simps) (simp add: split_beta)
  next
    case True
    let ?octets = "fst (pop_octets (unat ?nx) ?c1)" and ?c2 = "snd (pop_octets (unat ?nx) ?c1)"
    let ?label = "\<lparr>name_size = ?nx, name = ?octets\<rparr>"
    let ?labels' = "if amount = 0 then [?label] else labels @ [?label]"
    have IH: "buffer_size (snd (snd (interpret_labels_loop ?c2 ?labels' (amount + 1))))
        \<le> buffer_size ?c2"
      using True
      by (intro "1.IH" [of "pop_int8 c" ?nx ?c1 "pop_octets (unat ?nx) ?c1" ?octets ?c2 ?label])
        simp_all
    have unfold: "interpret_labels_loop c labels amount
        = interpret_labels_loop ?c2 ?labels' (amount + 1)"
      using True by (subst interpret_labels_loop.simps) (simp add: split_beta Let_def)
    have "buffer_size ?c2 = buffer_size c - 1 - int (unat ?nx)"
      by simp
    then show ?thesis
      using IH unfolding unfold by linarith
  qed
qed

lemma interpret_labels_loop_agree:
  "agree d c c' \<Longrightarrow> 0 \<le> buffer_size (snd (snd (interpret_labels_loop c acc amount))) \<Longrightarrow>
   fst (interpret_labels_loop c' acc amount) = fst (interpret_labels_loop c acc amount)
   \<and> fst (snd (interpret_labels_loop c' acc amount)) = fst (snd (interpret_labels_loop c acc amount))
   \<and> agree d (snd (snd (interpret_labels_loop c acc amount)))
        (snd (snd (interpret_labels_loop c' acc amount)))"
proof (induction c acc amount arbitrary: c' rule: interpret_labels_loop.induct)
  case (1 c labels amount)
  let ?nx = "fst (pop_int8 c)" and ?c1 = "snd (pop_int8 c)" and ?c1' = "snd (pop_int8 c')"
  let ?octets = "fst (pop_octets (unat ?nx) ?c1)" and ?c2 = "snd (pop_octets (unat ?nx) ?c1)"
  let ?c2' = "snd (pop_octets (unat ?nx) ?c1')"
  let ?label = "\<lparr>name_size = ?nx, name = ?octets\<rparr>"
  let ?labels' = "if amount = 0 then [?label] else labels @ [?label]"
  have final: "buffer_size (snd (snd (interpret_labels_loop c labels amount))) \<le> buffer_size ?c1"
  proof (cases "0 < ?nx")
    case True
    have u: "interpret_labels_loop c labels amount
        = interpret_labels_loop ?c2 ?labels' (amount + 1)"
      using True by (subst interpret_labels_loop.simps) (simp add: split_beta Let_def)
    have "buffer_size ?c2 = buffer_size ?c1 - int (unat ?nx)"
      by simp
    then show ?thesis
      unfolding u using interpret_labels_loop_mono [of ?c2 ?labels' "amount + 1"] by linarith
  next
    case False
    then show ?thesis
      by (subst interpret_labels_loop.simps) (simp add: split_beta)
  qed
  with "1.prems" have p8: "fst (pop_int8 c') = ?nx" "agree d ?c1 ?c1'"
    using pop_int8_agree [of d c c'] by simp_all
  show ?case
  proof (cases "0 < ?nx")
    case False
    then show ?thesis
      using p8 by (subst (1 2 3 4 5 6) interpret_labels_loop.simps) (simp add: split_beta)
  next
    case True
    have unfold: "interpret_labels_loop c labels amount
        = interpret_labels_loop ?c2 ?labels' (amount + 1)"
      using True by (subst interpret_labels_loop.simps) (simp add: split_beta Let_def)
    have c2: "0 \<le> buffer_size ?c2"
      using "1.prems"(2) interpret_labels_loop_mono [of ?c2 ?labels' "amount + 1"]
      unfolding unfold by linarith
    have po: "fst (pop_octets (unat ?nx) ?c1') = ?octets" "agree d ?c2 ?c2'"
      using pop_octets_agree [OF p8(2) c2] by simp_all
    have unfold': "interpret_labels_loop c' labels amount
        = interpret_labels_loop ?c2' ?labels' (amount + 1)"
      using True p8(1) po(1)
      by (subst interpret_labels_loop.simps) (simp add: split_beta Let_def)
    show ?thesis
      unfolding unfold unfold'
      using True po(2) "1.prems"(2)
      by (intro "1.IH" [of "pop_int8 c" ?nx ?c1 "pop_octets (unat ?nx) ?c1" ?octets ?c2 ?label])
        (simp_all add: unfold)
  qed
qed

lemma interpret_labels_agree:
  assumes "agree d c c'" and "0 \<le> buffer_size (snd (snd (interpret_labels c)))"
  shows "fst (interpret_labels c') = fst (interpret_labels c)
   \<and> fst (snd (interpret_labels c')) = fst (snd (interpret_labels c))
   \<and> agree d (snd (snd (interpret_labels c))) (snd (snd (interpret_labels c')))"
  using interpret_labels_loop_agree [OF assms(1), of "[]" 0] assms(2)
  by (simp add: interpret_labels_def split_beta)

lemma interpret_labels_mono:
  "buffer_size (snd (snd (interpret_labels c))) \<le> buffer_size c"
  using interpret_labels_consumed [of c] by linarith

lemma interpret_question_entry_mono:
  "buffer_size (snd (interpret_question_entry c)) \<le> buffer_size c"
  using interpret_question_entry_consumed [of c] by linarith

lemma interpret_question_loop_mono:
  "buffer_size (snd (interpret_question_loop n c)) \<le> buffer_size c"
  using interpret_question_loop_consumed [of n c] by linarith

lemma interpret_rr_entry_mono:
  "buffer_size (snd (interpret_rr_entry c)) \<le> buffer_size c"
  using interpret_rr_entry_consumed [of c] by linarith

lemma interpret_rr_loop_mono:
  "buffer_size (snd (interpret_rr_loop n c)) \<le> buffer_size c"
  using interpret_rr_loop_consumed [of n c] by linarith

lemma interpret_rr_mono:
  "buffer_size (snd (interpret_rr amount c)) \<le> buffer_size c"
  using interpret_rr_consumed [of amount c] by linarith

lemma interpret_question_entry_agree:
  assumes "agree d c c'" and "0 \<le> buffer_size (snd (interpret_question_entry c))"
  shows "fst (interpret_question_entry c') = fst (interpret_question_entry c)
   \<and> agree d (snd (interpret_question_entry c)) (snd (interpret_question_entry c'))"
proof -
  let ?l = "interpret_labels c" and ?l' = "interpret_labels c'"
  let ?t = "pop_int16 (snd (snd ?l))" and ?t' = "pop_int16 (snd (snd ?l'))"
  let ?k = "pop_int16 (snd ?t)" and ?k' = "pop_int16 (snd ?t')"
  from assms(2) have k: "0 \<le> buffer_size (snd ?k)"
    by (simp add: interpret_question_entry_def split_beta)
  then have t: "0 \<le> buffer_size (snd ?t)" and l: "0 \<le> buffer_size (snd (snd ?l))"
    by simp_all
  have 1: "fst ?l' = fst ?l \<and> fst (snd ?l') = fst (snd ?l) \<and> agree d (snd (snd ?l)) (snd (snd ?l'))"
    using assms(1) l by (rule interpret_labels_agree)
  then have 2: "fst ?t' = fst ?t \<and> agree d (snd ?t) (snd ?t')"
    using t by (intro pop_int16_agree) simp_all
  then have 3: "fst ?k' = fst ?k \<and> agree d (snd ?k) (snd ?k')"
    using k by (intro pop_int16_agree) simp_all
  from 1 2 3 show ?thesis
    by (simp add: interpret_question_entry_def split_beta)
qed

lemma interpret_question_loop_agree:
  "agree d c c' \<Longrightarrow> 0 \<le> buffer_size (snd (interpret_question_loop n c)) \<Longrightarrow>
   fst (interpret_question_loop n c') = fst (interpret_question_loop n c)
   \<and> agree d (snd (interpret_question_loop n c)) (snd (interpret_question_loop n c'))"
proof (induction n arbitrary: c c')
  case 0
  then show ?case by simp
next
  case (Suc n)
  let ?e = "interpret_question_entry c" and ?e' = "interpret_question_entry c'"
  from Suc.prems(2) have r: "0 \<le> buffer_size (snd (interpret_question_loop n (snd ?e)))"
    by (simp add: split_beta)
  then have e: "0 \<le> buffer_size (snd ?e)"
    using interpret_question_loop_mono [of n "snd ?e"] by linarith
  have 1: "fst ?e' = fst ?e \<and> agree d (snd ?e) (snd ?e')"
    using Suc.prems(1) e by (rule interpret_question_entry_agree)
  then have "fst (interpret_question_loop n (snd ?e')) = fst (interpret_question_loop n (snd ?e))
   \<and> agree d (snd (interpret_question_loop n (snd ?e))) (snd (interpret_question_loop n (snd ?e')))"
    using r by (intro Suc.IH) simp_all
  with 1 show ?case
    by (simp add: split_beta)
qed

lemma interpret_rr_entry_agree:
  assumes "agree d c c'" and "0 \<le> buffer_size (snd (interpret_rr_entry c))"
  shows "fst (interpret_rr_entry c') = fst (interpret_rr_entry c)
   \<and> agree d (snd (interpret_rr_entry c)) (snd (interpret_rr_entry c'))"
proof -
  let ?l = "interpret_labels c" and ?l' = "interpret_labels c'"
  let ?t = "pop_int16 (snd (snd ?l))" and ?t' = "pop_int16 (snd (snd ?l'))"
  let ?k = "pop_int16 (snd ?t)" and ?k' = "pop_int16 (snd ?t')"
  let ?u = "pop_int32 (snd ?k)" and ?u' = "pop_int32 (snd ?k')"
  let ?s = "pop_int16 (snd ?u)" and ?s' = "pop_int16 (snd ?u')"
  let ?o = "pop_octets (unat (fst ?s)) (snd ?s)" and ?o' = "pop_octets (unat (fst ?s')) (snd ?s')"
  from assms(2) have o: "0 \<le> buffer_size (snd ?o)"
    by (simp add: interpret_rr_entry_def split_beta)
  have "buffer_size (snd ?o) = buffer_size (snd ?s) - int (unat (fst ?s))"
    by simp
  with o have s: "0 \<le> buffer_size (snd ?s)"
    by linarith
  then have u: "0 \<le> buffer_size (snd ?u)" and k: "0 \<le> buffer_size (snd ?k)"
    and t: "0 \<le> buffer_size (snd ?t)" and l: "0 \<le> buffer_size (snd (snd ?l))"
    by simp_all
  have 1: "fst ?l' = fst ?l \<and> fst (snd ?l') = fst (snd ?l) \<and> agree d (snd (snd ?l)) (snd (snd ?l'))"
    using assms(1) l by (rule interpret_labels_agree)
  then have 2: "fst ?t' = fst ?t \<and> agree d (snd ?t) (snd ?t')"
    using t by (intro pop_int16_agree) simp_all
  then have 3: "fst ?k' = fst ?k \<and> agree d (snd ?k) (snd ?k')"
    using k by (intro pop_int16_agree) simp_all
  then have 4: "fst ?u' = fst ?u \<and> agree d (snd ?u) (snd ?u')"
    using u by (intro pop_int32_agree) simp_all
  then have 5: "fst ?s' = fst ?s \<and> agree d (snd ?s) (snd ?s')"
    using s by (intro pop_int16_agree) simp_all
  then have "fst (pop_octets (unat (fst ?s)) (snd ?s')) = fst ?o
      \<and> agree d (snd ?o) (snd (pop_octets (unat (fst ?s)) (snd ?s')))"
    using o by (intro pop_octets_agree) simp_all
  with 5 have 6: "fst ?o' = fst ?o \<and> agree d (snd ?o) (snd ?o')"
    by simp
  from 1 2 3 4 5 6 show ?thesis
    by (simp add: interpret_rr_entry_def split_beta)
qed

lemma interpret_rr_agree:
  assumes "agree d c c'" and "0 \<le> buffer_size (snd (interpret_rr amount c))"
  shows "fst (interpret_rr amount c') = fst (interpret_rr amount c)
   \<and> agree d (snd (interpret_rr amount c)) (snd (interpret_rr amount c'))"
proof -
  have "agree d c c' \<Longrightarrow> 0 \<le> buffer_size (snd (interpret_rr_loop n c)) \<Longrightarrow>
     fst (interpret_rr_loop n c') = fst (interpret_rr_loop n c)
     \<and> agree d (snd (interpret_rr_loop n c)) (snd (interpret_rr_loop n c'))" for n c c'
  proof (induction n arbitrary: c c')
    case 0
    then show ?case by simp
  next
    case (Suc n)
    let ?e = "interpret_rr_entry c" and ?e' = "interpret_rr_entry c'"
    from Suc.prems(2) have r: "0 \<le> buffer_size (snd (interpret_rr_loop n (snd ?e)))"
      by (simp add: split_beta)
    then have e: "0 \<le> buffer_size (snd ?e)"
      using interpret_rr_loop_mono [of n "snd ?e"] by linarith
    have 1: "fst ?e' = fst ?e \<and> agree d (snd ?e) (snd ?e')"
      using Suc.prems(1) e by (rule interpret_rr_entry_agree)
    then have "fst (interpret_rr_loop n (snd ?e')) = fst (interpret_rr_loop n (snd ?e))
     \<and> agree d (snd (interpret_rr_loop n (snd ?e))) (snd (interpret_rr_loop n (snd ?e')))"
      using r by (intro Suc.IH) simp_all
    with 1 show ?case
      by (simp add: split_beta)
  qed
  with assms show ?thesis
    by (simp add: interpret_rr_def)
qed

lemma interpret_message_agree:
  assumes "agree d c c'" and "0 \<le> buffer_size (snd (interpret_message c))"
  shows "fst (interpret_message c') = fst (interpret_message c)
   \<and> agree d (snd (interpret_message c)) (snd (interpret_message c'))"
proof -
  let ?a = "pop_int16 c" and ?a' = "pop_int16 c'"
  let ?b = "pop_int16 (snd ?a)" and ?b' = "pop_int16 (snd ?a')"
  let ?e = "pop_int16 (snd ?b)" and ?e' = "pop_int16 (snd ?b')"
  let ?f = "pop_int16 (snd ?e)" and ?f' = "pop_int16 (snd ?e')"
  let ?g = "pop_int16 (snd ?f)" and ?g' = "pop_int16 (snd ?f')"
  let ?h = "pop_int16 (snd ?g)" and ?h' = "pop_int16 (snd ?g')"
  let ?q = "interpret_question_loop (unat (fst ?e)) (snd ?h)"
  let ?q' = "interpret_question_loop (unat (fst ?e')) (snd ?h')"
  let ?an = "interpret_rr (fst ?f) (snd ?q)" and ?an' = "interpret_rr (fst ?f') (snd ?q')"
  let ?au = "interpret_rr (fst ?g) (snd ?an)" and ?au' = "interpret_rr (fst ?g') (snd ?an')"
  let ?ad = "interpret_rr (fst ?h) (snd ?au)" and ?ad' = "interpret_rr (fst ?h') (snd ?au')"
  from assms(2) have ad: "0 \<le> buffer_size (snd ?ad)"
    by (simp add: interpret_message_def split_beta)
  then have au: "0 \<le> buffer_size (snd ?au)"
    using interpret_rr_mono [of "fst ?h" "snd ?au"] by linarith
  then have an: "0 \<le> buffer_size (snd ?an)"
    using interpret_rr_mono [of "fst ?g" "snd ?an"] by linarith
  then have q: "0 \<le> buffer_size (snd ?q)"
    using interpret_rr_mono [of "fst ?f" "snd ?q"] by linarith
  then have h: "0 \<le> buffer_size (snd ?h)"
    using interpret_question_loop_mono [of "unat (fst ?e)" "snd ?h"] by linarith
  then have g: "0 \<le> buffer_size (snd ?g)" and f: "0 \<le> buffer_size (snd ?f)"
    and e: "0 \<le> buffer_size (snd ?e)" and b: "0 \<le> buffer_size (snd ?b)"
    and a: "0 \<le> buffer_size (snd ?a)"
    by simp_all
  have 1: "fst ?a' = fst ?a \<and> agree d (snd ?a) (snd ?a')"
    using assms(1) a by (rule pop_int16_agree)
  then have 2: "fst ?b' = fst ?b \<and> agree d (snd ?b) (snd ?b')"
    using b by (intro pop_int16_agree) simp_all
  then have 3: "fst ?e' = fst ?e \<and> agree d (snd ?e) (snd ?e')"
    using e by (intro pop_int16_agree) simp_all
  then have 4: "fst ?f' = fst ?f \<and> agree d (snd ?f) (snd ?f')"
    using f by (intro pop_int16_agree) simp_all
  then have 5: "fst ?g' = fst ?g \<and> agree d (snd ?g) (snd ?g')"
    using g by (intro pop_int16_agree) simp_all
  then have 6: "fst ?h' = fst ?h \<and> agree d (snd ?h) (snd ?h')"
    using h by (intro pop_int16_agree) simp_all
  then have "fst (interpret_question_loop (unat (fst ?e)) (snd ?h')) = fst ?q
      \<and> agree d (snd ?q) (snd (interpret_question_loop (unat (fst ?e)) (snd ?h')))"
    using q by (intro interpret_question_loop_agree) simp_all
  with 3 have 7: "fst ?q' = fst ?q \<and> agree d (snd ?q) (snd ?q')"
    by simp
  then have "fst (interpret_rr (fst ?f) (snd ?q')) = fst ?an
      \<and> agree d (snd ?an) (snd (interpret_rr (fst ?f) (snd ?q')))"
    using an by (intro interpret_rr_agree) simp_all
  with 4 have 8: "fst ?an' = fst ?an \<and> agree d (snd ?an) (snd ?an')"
    by simp
  then have "fst (interpret_rr (fst ?g) (snd ?an')) = fst ?au
      \<and> agree d (snd ?au) (snd (interpret_rr (fst ?g) (snd ?an')))"
    using au by (intro interpret_rr_agree) simp_all
  with 5 have 9: "fst ?au' = fst ?au \<and> agree d (snd ?au) (snd ?au')"
    by simp
  then have "fst (interpret_rr (fst ?h) (snd ?au')) = fst ?ad
      \<and> agree d (snd ?ad) (snd (interpret_rr (fst ?h) (snd ?au')))"
    using ad by (intro interpret_rr_agree) simp_all
  with 6 have 10: "fst ?ad' = fst ?ad \<and> agree d (snd ?ad) (snd ?ad')"
    by simp
  from 1 2 3 4 5 6 7 8 9 10 show ?thesis
    by (simp add: interpret_message_def split_beta)
qed

lemma agree_take:
  assumes "k \<le> length w"
  shows "agree (int (length w) - int k)
     \<lparr>buffer = take k w @- rest, buffer_size = int k\<rparr>
     \<lparr>buffer = w @- rest', buffer_size = int (length w)\<rparr>"
proof -
  have "stake k (take k w @- rest) = take k w"
    using assms by (simp add: stake_shift)
  moreover have "stake k (w @- rest') = take k w"
    using assms by (simp add: stake_shift)
  ultimately show ?thesis
    using assms by (simp add: agree_def)
qed

lemma interpret_message_truncated:
  assumes "valid_message m" and "k < length (wire_message m)"
  shows "buffer_size (snd (interpret_message
      \<lparr>buffer = take k (wire_message m) @- rest, buffer_size = int k\<rparr>)) < 0"
proof (rule ccontr)
  let ?w = "wire_message m"
  let ?c = "\<lparr>buffer = take k ?w @- rest, buffer_size = int k\<rparr>"
  let ?c' = "\<lparr>buffer = ?w @- rest, buffer_size = int (length ?w)\<rparr>"
  assume "\<not> buffer_size (snd (interpret_message ?c)) < 0"
  then have nonneg: "0 \<le> buffer_size (snd (interpret_message ?c))"
    by simp
  have "agree (int (length ?w) - int k) ?c ?c'"
    using assms(2) by (intro agree_take) simp
  from interpret_message_agree [OF this nonneg]
  have "buffer_size (snd (interpret_message ?c'))
      = buffer_size (snd (interpret_message ?c)) + (int (length ?w) - int k)"
    by (simp add: agree_def)
  moreover have "buffer_size (snd (interpret_message ?c')) = 0"
    using interpret_message_shift [OF assms(1), of "int (length ?w)" rest] by simp
  ultimately show False
    using nonneg assms(2) by linarith
qed

subsection \<open>The malformed flag\<close>

text \<open>
  Claim C2. Decoding sets the malformed flag if and only if the counter is negative
  after the walk over the whole declared structure: a flag that was not 1 before
  the call is 1 after it exactly in this case, and the flag is as it was before the
  call when the counter ends non-negative. In particular the flag is set for
  every buffer that is shorter than the size of the message decoded from it, which
  is the size that the counts and length fields read from the buffer declare; and
  it is set for every buffer that holds only the first \<open>k\<close> octets of the encoding
  of a structurally valid message, \<open>k\<close> being less than the length of the encoding.
\<close>

theorem interpret_question_malformed:
  "(error_flag \<noteq> 1 \<longrightarrow>
      (snd (interpret_question buf len error_flag) = 1
        \<longleftrightarrow> buffer_size (snd (interpret_message \<lparr>buffer = buf, buffer_size = len\<rparr>)) < 0))
   \<and> (0 \<le> buffer_size (snd (interpret_message \<lparr>buffer = buf, buffer_size = len\<rparr>))
        \<longrightarrow> snd (interpret_question buf len error_flag) = error_flag)
   \<and> (len < int (compute_size (fst (interpret_question buf len error_flag)))
        \<longrightarrow> snd (interpret_question buf len error_flag) = 1)
   \<and> (valid_message m \<and> k < length (wire_message m)
        \<longrightarrow> snd (interpret_question (take k (wire_message m) @- rest) (int k) error_flag) = 1)"
  using interpret_message_consumed [of "\<lparr>buffer = buf, buffer_size = len\<rparr>"]
    interpret_message_truncated [of m k rest]
  by (simp add: interpret_question_def split_beta)

theorem interpret_question_malformed_witness:
  "(0 :: c_int) \<noteq> 1
   \<and> 12 < int (compute_size (fst (interpret_question (lone_header @- sconst 0) 12 0)))
   \<and> snd (interpret_question (lone_header @- sconst 0) 12 0) = 1
   \<and> buffer_size (snd (interpret_message
         \<lparr>buffer = lone_header @- sconst 0, buffer_size = 12\<rparr>)) < 0
   \<and> valid_message example_message \<and> 28 < length (wire_message example_message)
   \<and> snd (interpret_question (take 28 example_octets @- sconst 0) 28 0) = 1
   \<and> 0 \<le> buffer_size (snd (interpret_message
         \<lparr>buffer = example_octets @- sconst 0, buffer_size = 29\<rparr>))
   \<and> snd (interpret_question (example_octets @- sconst 0) 29 0) = 0"
proof -
  have "(0 :: c_int) \<noteq> 1
   \<and> 12 < int (compute_size (fst (interpret_question (lone_header @- sconst 0) 12 0)))
   \<and> snd (interpret_question (lone_header @- sconst 0) 12 0) = 1
   \<and> buffer_size (snd (interpret_message
         \<lparr>buffer = lone_header @- sconst 0, buffer_size = 12\<rparr>)) < 0
   \<and> valid_message example_message \<and> 28 < length (wire_message example_message)
   \<and> snd (interpret_question (take 28 example_octets @- sconst 0) 28 0) = 1"
    using interpret_question_malformed [where error_flag = 0
        and buf = "lone_header @- sconst 0" and len = 12 and m = example_message and k = 28
        and rest = "sconst 0"]
    by (simp add: interpret_lone_header compute_size_def question_size_def label_list_size_def
        valid_example_message wire_example_message)
      (simp add: example_octets_def)
  moreover have len: "int (length example_octets) = 29"
    by (simp add: example_octets_def)
  have "interpret_message \<lparr>buffer = example_octets @- sconst 0, buffer_size = 29\<rparr>
      = (example_message, \<lparr>buffer = sconst 0, buffer_size = 0\<rparr>)"
    using interpret_message_shift [OF valid_example_message, of 29 "sconst 0"]
    by (simp add: wire_example_message len)
  then have final: "0 \<le> buffer_size (snd (interpret_message
         \<lparr>buffer = example_octets @- sconst 0, buffer_size = 29\<rparr>))"
    by simp
  moreover from final have "snd (interpret_question (example_octets @- sconst 0) 29 0) = 0"
    using interpret_question_malformed [where error_flag = 0
        and buf = "example_octets @- sconst 0" and len = 29 and m = example_message and k = 28
        and rest = "sconst 0"]
    by blast
  ultimately show ?thesis
    using final by blast
qed

subsection \<open>What the flag holds when nothing is wrong\<close>

text \<open>
  Claim C10. \<open>interpret_question\<close> stores into the caller's flag only when the counter
  is negative after the walk, and then stores 1. When the counter ends non-negative
  the flag keeps the value it had before the call, whatever that was: it is not
  cleared. So after the encoding of a structurally valid message the flag still holds
  its prior value, and where that value was 1 the caller sees the same flag as after
  a truncated copy of the encoding.
\<close>

theorem interpret_question_error_flag:
  "interpret_question buf len error_flag =
     (fst (interpret_message \<lparr>buffer = buf, buffer_size = len\<rparr>),
      if buffer_size (snd (interpret_message \<lparr>buffer = buf, buffer_size = len\<rparr>)) < 0
      then 1 else error_flag)
   \<and> (valid_message m \<longrightarrow>
        snd (interpret_question (wire_message m @- rest) (int (length (wire_message m)))
          error_flag) = error_flag)
   \<and> (valid_message m \<and> k < length (wire_message m) \<longrightarrow>
        snd (interpret_question (wire_message m @- rest) (int (length (wire_message m))) 1)
        = snd (interpret_question (take k (wire_message m) @- rest) (int k) 1))"
proof -
  have "interpret_question buf len error_flag =
     (fst (interpret_message \<lparr>buffer = buf, buffer_size = len\<rparr>),
      if buffer_size (snd (interpret_message \<lparr>buffer = buf, buffer_size = len\<rparr>)) < 0
      then 1 else error_flag)"
    by (simp add: interpret_question_def split_beta)
  moreover have "snd (interpret_question (wire_message m @- rest)
      (int (length (wire_message m))) e) = e" if "valid_message m" for e
    using interpret_question_wire [OF that, of rest e] by simp
  moreover have "snd (interpret_question (take k (wire_message m) @- rest) (int k) 1) = 1"
    if "valid_message m" and "k < length (wire_message m)"
    using interpret_message_truncated [OF that, of rest]
    by (simp add: interpret_question_def split_beta)
  ultimately show ?thesis
    by simp
qed

theorem interpret_question_error_flag_witness:
  "valid_message example_message \<and> 28 < length (wire_message example_message)
   \<and> snd (interpret_question (example_octets @- sconst 0) 29 1) = 1
   \<and> snd (interpret_question (take 28 example_octets @- sconst 0) 28 1) = 1"
proof -
  note flag = interpret_question_error_flag [where m = example_message and k = 28
      and rest = "sconst 0" and buf = "sconst 0" and len = 0 and error_flag = 1]
  have len: "length (wire_message example_message) = 29"
    by (simp add: wire_example_message example_octets_def)
  then have k: "28 < length (wire_message example_message)"
    by simp
  from flag valid_example_message
  have full: "snd (interpret_question (wire_message example_message @- sconst 0)
      (int (length (wire_message example_message))) 1) = 1"
    by blast
  from flag valid_example_message k
  have "snd (interpret_question (wire_message example_message @- sconst 0)
      (int (length (wire_message example_message))) 1)
    = snd (interpret_question (take 28 (wire_message example_message) @- sconst 0) (int 28) 1)"
    by blast
  with full have cut:
    "snd (interpret_question (take 28 (wire_message example_message) @- sconst 0) (int 28) 1) = 1"
    by simp
  have "int (length example_octets) = 29"
    by (simp add: example_octets_def)
  with full have "snd (interpret_question (example_octets @- sconst 0) 29 1) = 1"
    unfolding wire_example_message by simp
  moreover from cut have "snd (interpret_question (take 28 example_octets @- sconst 0) 28 1) = 1"
    unfolding wire_example_message by simp
  ultimately show ?thesis
    using valid_example_message k by blast
qed

section \<open>The range of the counter\<close>

text \<open>
  A walk ends with a counter that is at most 12953844717 below the counter it
  starts with, or below 0 if it starts above: once the counter is negative every
  length octet reads as 0, so each name costs one read, and the counts are below
  \<open>2 ^ 16\<close>. The 64-bit counter of the C code therefore stays in its range, and the
  integer of the model is the value it holds.
\<close>

lemma uint_uint8_le: "uint (x :: uint8_t) \<le> 255"
  using unsigned_less [of x, where ?'a = int] by simp

lemma uint_uint16_le: "uint (x :: uint16_t) \<le> 65535"
  using unsigned_less [of x, where ?'a = int] by simp

lemma interpret_labels_loop_lower:
  "(if buffer_size c \<le> 0 then buffer_size c - 1 else - 256)
     \<le> buffer_size (snd (snd (interpret_labels_loop c acc amount)))"
proof (induction c acc amount rule: interpret_labels_loop.induct)
  case (1 c labels amount)
  let ?nx = "fst (pop_int8 c)" and ?c1 = "snd (pop_int8 c)"
  show ?case
  proof (cases "0 < ?nx")
    case False
    then show ?thesis
      by (subst interpret_labels_loop.simps) (simp add: split_beta)
  next
    case True
    let ?octets = "fst (pop_octets (unat ?nx) ?c1)" and ?c2 = "snd (pop_octets (unat ?nx) ?c1)"
    let ?label = "\<lparr>name_size = ?nx, name = ?octets\<rparr>"
    let ?labels' = "if amount = 0 then [?label] else labels @ [?label]"
    have IH: "(if buffer_size ?c2 \<le> 0 then buffer_size ?c2 - 1 else - 256)
       \<le> buffer_size (snd (snd (interpret_labels_loop ?c2 ?labels' (amount + 1))))"
      using True
      by (intro "1.IH" [of "pop_int8 c" ?nx ?c1 "pop_octets (unat ?nx) ?c1" ?octets ?c2 ?label])
        simp_all
    have unfold: "interpret_labels_loop c labels amount
        = interpret_labels_loop ?c2 ?labels' (amount + 1)"
      using True by (subst interpret_labels_loop.simps) (simp add: split_beta Let_def)
    have "0 < buffer_size c"
      using True by (simp add: pop_int8_def Let_def word_greater_zero_iff split: if_splits)
    moreover have "buffer_size ?c2 = buffer_size c - 1 - int (unat ?nx)"
      by simp
    moreover have "int (unat ?nx) \<le> 255"
      using uint_uint8_le [of ?nx] by simp
    ultimately show ?thesis
      using IH unfolding unfold by (auto split: if_splits)
  qed
qed

lemma interpret_labels_lower:
  "min (buffer_size c) 0 - 256 \<le> buffer_size (snd (snd (interpret_labels c)))"
  using interpret_labels_loop_lower [of c "[]" 0]
  by (simp add: interpret_labels_def split_beta split: if_splits)

lemma interpret_question_entry_lower:
  "min (buffer_size c) 0 - 260 \<le> buffer_size (snd (interpret_question_entry c))"
  using interpret_labels_lower [of c]
  by (simp add: interpret_question_entry_def split_beta)

lemma interpret_question_loop_lower:
  "min (buffer_size c) 0 - int n * 260 \<le> buffer_size (snd (interpret_question_loop n c))"
proof (induction n arbitrary: c)
  case 0
  then show ?case by simp
next
  case (Suc n)
  show ?case
    using interpret_question_entry_lower [of c]
      Suc.IH [of "snd (interpret_question_entry c)"]
    by (simp add: split_beta algebra_simps)
qed

lemma interpret_rr_entry_lower:
  "min (buffer_size c) 0 - 65801 \<le> buffer_size (snd (interpret_rr_entry c))"
  using interpret_labels_lower [of c]
    uint_uint16_le [of "fst (pop_int16 (snd (pop_int32 (snd (pop_int16 (snd (pop_int16
      (snd (snd (interpret_labels c))))))))))"]
  by (simp add: interpret_rr_entry_def split_beta)

lemma interpret_rr_lower:
  "min (buffer_size c) 0 - 65535 * 65801 \<le> buffer_size (snd (interpret_rr amount c))"
proof -
  have "min (buffer_size c) 0 - int n * 65801 \<le> buffer_size (snd (interpret_rr_loop n c))"
    for n
  proof (induction n arbitrary: c)
    case 0
    then show ?case by simp
  next
    case (Suc n)
    show ?case
      using interpret_rr_entry_lower [of c] Suc.IH [of "snd (interpret_rr_entry c)"]
      by (simp add: split_beta algebra_simps)
  qed
  from this [of "unat amount"] uint_uint16_le [of amount] show ?thesis
    by (simp add: interpret_rr_def)
qed

lemma interpret_message_lower:
  "min (buffer_size c) 0 - 12953844717 \<le> buffer_size (snd (interpret_message c))"
proof -
  let ?c6 = "snd (pop_int16 (snd (pop_int16 (snd (pop_int16 (snd (pop_int16 (snd (pop_int16 (snd (pop_int16 c)))))))))))"
  let ?m = "fst (interpret_message c)"
  let ?q = "interpret_question_loop (unat (query_count (header ?m))) ?c6"
  let ?an = "interpret_rr (answer_count (header ?m)) (snd ?q)"
  let ?au = "interpret_rr (authority_count (header ?m)) (snd ?an)"
  let ?ad = "interpret_rr (additional_count (header ?m)) (snd ?au)"
  have m: "snd (interpret_message c) = snd ?ad"
    by (simp_all add: interpret_message_def split_beta)
  have "buffer_size ?c6 = buffer_size c - 12"
    by simp
  moreover have "min (buffer_size ?c6) 0 - 65535 * 260 \<le> buffer_size (snd ?q)"
    using interpret_question_loop_lower [of ?c6 "unat (query_count (header ?m))"]
      uint_uint16_le [of "query_count (header ?m)"]
    by simp
  moreover note interpret_rr_lower [of "snd ?q" "answer_count (header ?m)"]
    interpret_rr_lower [of "snd ?an" "authority_count (header ?m)"]
    interpret_rr_lower [of "snd ?au" "additional_count (header ?m)"]
  ultimately show ?thesis
    unfolding m by linarith
qed

lemma interpret_message_no_overflow:
  "0 \<le> buffer_size c \<Longrightarrow> - (2 ^ 63) < buffer_size (snd (interpret_message c))"
  using interpret_message_lower [of c] by simp

end
